theory Spec2Isabelle
  imports Complex_Main "HOL-Library.Sublist" "HOL-Library.Word"
begin

section \<open>Python strings\<close>

text \<open>
  A Python \<open>str\<close> is modelled as a \<open>string\<close>, one \<open>char\<close> per code point, for
  text whose code points are below 256. The operations below are the \<open>str\<close> methods
  that \<open>main.py\<close> calls, with CPython's meaning.
\<close>

text \<open>
  \<open>str.isspace\<close> on one character: the code points below 256 that CPython counts as
  whitespace (TAB, LF, VT, FF, CR, FS, GS, RS, US, SPACE, NEL, NBSP).
\<close>

definition isspace :: "char \<Rightarrow> bool" where
  "isspace c = (c \<in> {CHR 0x09, CHR 0x0A, CHR 0x0B, CHR 0x0C, CHR 0x0D, CHR 0x1C,
                      CHR 0x1D, CHR 0x1E, CHR 0x1F, CHR 0x20, CHR 0x85, CHR 0xA0})"

text \<open>\<open>s.strip()\<close>: leading and trailing whitespace removed.\<close>

definition strip :: "string \<Rightarrow> string" where
  "strip s = rev (dropWhile isspace (rev (dropWhile isspace s)))"

text \<open>\<open>s.rstrip()\<close>: trailing whitespace removed.\<close>

definition rstrip :: "string \<Rightarrow> string" where
  "rstrip s = rev (dropWhile isspace (rev s))"

text \<open>\<open>sub in s\<close>: \<open>sub\<close> occurs in \<open>s\<close> as a contiguous run.\<close>

fun str_contains :: "string \<Rightarrow> string \<Rightarrow> bool" where
  "str_contains sub [] = (sub = [])"
| "str_contains sub (c # cs) = (prefix sub (c # cs) \<or> str_contains sub cs)"

text \<open>
  \<open>s.replace(old, new)\<close>: the occurrences of \<open>old\<close> are found from the left and do
  not overlap; each is replaced by \<open>new\<close>. (For an empty \<open>old\<close> CPython puts \<open>new\<close>
  before every character and at the end.)
\<close>

fun str_replace :: "string \<Rightarrow> string \<Rightarrow> string \<Rightarrow> string" where
  "str_replace old new [] = (if old = [] then new else [])"
| "str_replace old new (c # cs) =
     (if old = [] then new @ c # str_replace old new cs
      else if prefix old (c # cs)
        then new @ str_replace old new (drop (length old) (c # cs))
      else c # str_replace old new cs)"

text \<open>
  \<open>s.split(sep)\<close> for a non-empty separator: the pieces between the occurrences of
  \<open>sep\<close>, found from the left without overlap; empty pieces are kept, so the result
  has at least one element. CPython raises \<open>ValueError\<close> for an empty separator;
  \<open>main.py\<close> only passes the literal \<open>" - "\<close>, and the model never splits there.
\<close>

fun str_split_sep :: "string \<Rightarrow> string \<Rightarrow> string list" where
  "str_split_sep sep [] = [[]]"
| "str_split_sep sep (c # cs) =
     (if sep \<noteq> [] \<and> prefix sep (c # cs)
        then [] # str_split_sep sep (drop (length sep) (c # cs))
      else (case str_split_sep sep cs of p # ps \<Rightarrow> (c # p) # ps))"

text \<open>
  \<open>s.split()\<close>: the maximal runs of non-whitespace characters, in order.
\<close>

function str_split :: "string \<Rightarrow> string list" where
  "str_split s =
     (case dropWhile isspace s of
        [] \<Rightarrow> []
      | c # cs \<Rightarrow> takeWhile (\<lambda>x. \<not> isspace x) (c # cs)
                 # str_split (dropWhile (\<lambda>x. \<not> isspace x) (c # cs)))"
  by pat_completeness auto
termination
proof (relation "measure length")
  show "wf (measure length)" by simp
next
  fix s :: string and c cs
  assume eq: "dropWhile isspace s = c # cs"
  have "length (dropWhile (\<lambda>x. \<not> isspace x) (c # cs)) \<le> length (c # cs)"
    by (rule length_dropWhile_le)
  moreover have "\<not> isspace c"
    using eq hd_dropWhile [of isspace s] by auto
  then have "dropWhile (\<lambda>x. \<not> isspace x) (c # cs) = dropWhile (\<lambda>x. \<not> isspace x) cs"
    by simp
  moreover have "length (dropWhile (\<lambda>x. \<not> isspace x) cs) \<le> length cs"
    by (rule length_dropWhile_le)
  moreover have "length (c # cs) \<le> length s"
    using length_dropWhile_le [of isspace s] eq by simp
  ultimately show "(dropWhile (\<lambda>x. \<not> isspace x) (c # cs), s) \<in> measure length"
    by simp
qed

declare str_split.simps [simp del]

text \<open>\<open>sep.join(xs)\<close>.\<close>

fun str_join :: "string \<Rightarrow> string list \<Rightarrow> string" where
  "str_join sep [] = []"
| "str_join sep [x] = x"
| "str_join sep (x # y # ys) = x @ sep @ str_join sep (y # ys)"

text \<open>
  A string whose only whitespace characters are spaces, no two of them adjacent.
\<close>

definition single_spaced :: "string \<Rightarrow> bool" where
  "single_spaced s = ((\<forall>c\<in>set s. isspace c \<longrightarrow> c = CHR '' '') \<and> \<not> str_contains ''  '' s)"

section \<open>Headline cleaning\<close>

text \<open>
  \<open>ThumbnailGenerator.clean_title\<close>. The statements after the second \<open>return\<close>
  (\<open>return text.title()\<close>) are never run and have no counterpart here.
\<close>

definition clean_title :: "string \<Rightarrow> string" where
  "clean_title prompt =
     (let text = strip (str_replace ''- Intimation'' [] prompt) in
      if str_contains ''Listing Obligations'' text then ''Important Update''
      else strip text)"

section \<open>Text wrapping\<close>

text \<open>
  \<open>ThumbnailGenerator.wrap_text\<close>. The font enters only through the measurement
  \<open>draw.textbbox((0, 0), s, font=font)[2]\<close>, the right edge of the rendered string
  \<open>s\<close>; it is the parameter \<open>width\<close>.

  \<open>wrap_words\<close> is the loop \<open>for word in words\<close> (the same in both branches) over
  the state \<open>(lines, current_line)\<close>; \<open>flush\<close> is the statement after the loop.
\<close>

fun wrap_words ::
  "(string \<Rightarrow> int) \<Rightarrow> int \<Rightarrow> string list \<Rightarrow> string \<Rightarrow> string list \<Rightarrow> string list \<times> string"
where
  "wrap_words width max_width lines current_line [] = (lines, current_line)"
| "wrap_words width max_width lines current_line (word # words) =
     (let test_line = (if current_line \<noteq> [] then current_line @ '' '' @ word else word) in
      if width test_line \<le> max_width
        then wrap_words width max_width lines test_line words
      else wrap_words width max_width
             (if current_line \<noteq> [] then lines @ [current_line] else lines) word words)"

definition flush :: "string list \<times> string \<Rightarrow> string list" where
  "flush st = (case st of (lines, current_line) \<Rightarrow>
     if current_line \<noteq> [] then lines @ [current_line] else lines)"

text \<open>The loop \<open>for i, part in enumerate(parts)\<close> of the manual-break branch.\<close>

fun wrap_parts ::
  "(string \<Rightarrow> int) \<Rightarrow> int \<Rightarrow> string list \<Rightarrow> string list \<Rightarrow> string list"
where
  "wrap_parts width max_width lines [] = lines"
| "wrap_parts width max_width lines (p # parts) =
     (let part = strip p in
      if part = [] then wrap_parts width max_width lines parts
      else if width part \<le> max_width
        then wrap_parts width max_width (lines @ [part]) parts
      else wrap_parts width max_width
             (flush (wrap_words width max_width lines [] (str_split part))) parts)"

definition wrap_text :: "(string \<Rightarrow> int) \<Rightarrow> string \<Rightarrow> int \<Rightarrow> string list" where
  "wrap_text width text max_width =
     (if str_contains '' - '' text
        then wrap_parts width max_width [] (str_split_sep '' - '' text)
      else flush (wrap_words width max_width [] [] (str_split text)))"

section \<open>Floating-point arithmetic\<close>

text \<open>
  A Python \<open>float\<close> is an IEEE 754 binary64 number: a finite one is modelled by the
  rational number it denotes. Every arithmetic operation returns the exact result
  rounded to the nearest number with a 53-bit significand, ties to the even
  significand. The exponent range is not modelled (no overflow, no subnormal numbers):
  the model is exact for results whose magnitude lies in the normal range of binary64,
  from \<open>2 powi (- 1022)\<close> to below \<open>2 powi 1024\<close>, which covers colour channels and
  pixel coordinates.
\<close>

text \<open>Rounding a rational to the nearest integer, ties to even.\<close>

definition rne :: "rat \<Rightarrow> int" where
  "rne x =
     (let f = \<lfloor>x\<rfloor>; d = x - of_int f in
      if d < 1 / 2 then f else if 1 / 2 < d then f + 1
      else if even f then f else f + 1)"

text \<open>
  The binary exponent of a positive rational \<open>x\<close>: the \<open>e\<close> with
  \<open>2 powi e \<le> x\<close> and \<open>x < 2 powi (e + 1)\<close>, found by halving (\<open>x \<ge> 1\<close>) or
  doubling (\<open>x < 1\<close>).
\<close>

function exp_up :: "rat \<Rightarrow> int" where
  "exp_up x = (if x < 2 then 0 else 1 + exp_up (x / 2))"
  by pat_completeness auto
termination
proof (relation "measure (\<lambda>x. nat \<lfloor>x\<rfloor>)")
  show "wf (measure (\<lambda>x. nat \<lfloor>x\<rfloor>))" by simp
next
  fix x :: rat
  assume "\<not> x < 2"
  then have "\<lfloor>x / 2\<rfloor> < \<lfloor>x\<rfloor>" "0 < \<lfloor>x\<rfloor>"
    by (simp_all add: floor_less_iff less_floor_iff) linarith
  then show "(x / 2, x) \<in> measure (\<lambda>x. nat \<lfloor>x\<rfloor>)" by simp
qed

function exp_down :: "rat \<Rightarrow> int" where
  "exp_down x = (if x \<le> 0 \<or> 1 \<le> x then 0 else exp_down (2 * x) - 1)"
  by pat_completeness auto
termination
proof (relation "measure (\<lambda>x. nat \<lceil>1 / x\<rceil>)")
  show "wf (measure (\<lambda>x. nat \<lceil>1 / x\<rceil>))" by simp
next
  fix x :: rat
  assume "\<not> (x \<le> 0 \<or> 1 \<le> x)"
  then have x: "0 < x" "x < 1" by simp_all
  then have "1 < 1 / x" by simp
  then have c: "2 \<le> \<lceil>1 / x\<rceil>" by (simp add: le_ceiling_iff)
  have "1 / (2 * x) = (1 / x) / 2" by simp
  also have "\<dots> \<le> of_int \<lceil>1 / x\<rceil> / 2"
    by (simp add: divide_right_mono le_of_int_ceiling)
  also have "\<dots> \<le> of_int (\<lceil>1 / x\<rceil> - 1)"
    using c by simp
  finally have "\<lceil>1 / (2 * x)\<rceil> \<le> \<lceil>1 / x\<rceil> - 1"
    by (simp only: ceiling_le_iff)
  with c have "nat \<lceil>1 / (2 * x)\<rceil> < nat \<lceil>1 / x\<rceil>" by linarith
  then show "(2 * x, x) \<in> measure (\<lambda>x. nat \<lceil>1 / x\<rceil>)"
    by (simp only: in_measure)
qed

declare exp_up.simps [simp del] exp_down.simps [simp del]

definition ilog2 :: "rat \<Rightarrow> int" where
  "ilog2 x = (if 1 \<le> x then exp_up x else exp_down x)"

text \<open>\<open>fl x\<close>: the binary64 number nearest to \<open>x\<close>.\<close>

definition fl :: "rat \<Rightarrow> rat" where
  "fl x =
     (if x = 0 then 0
      else let e = ilog2 \<bar>x\<bar> in
        of_int (rne (x / 2 powi (e - 52))) * 2 powi (e - 52))"

text \<open>
  \<open>float(n)\<close> for an integer, the operations \<open>+\<close>, \<open>*\<close> on floats, the true
  division \<open>a / b\<close> of two integers (correctly rounded, \<open>b\<close> not zero), a decimal
  literal, and \<open>int(x)\<close>, which rounds toward zero.
\<close>

definition float_of_int :: "int \<Rightarrow> rat" where
  "float_of_int n = fl (of_int n)"

definition fadd :: "rat \<Rightarrow> rat \<Rightarrow> rat" where
  "fadd a b = fl (a + b)"

definition fmul :: "rat \<Rightarrow> rat \<Rightarrow> rat" where
  "fmul a b = fl (a * b)"

definition int_truediv :: "int \<Rightarrow> int \<Rightarrow> rat" where
  "int_truediv a b = fl (of_int a / of_int b)"

definition literal :: "rat \<Rightarrow> rat" where
  "literal d = fl d"

definition int_of_float :: "rat \<Rightarrow> int" where
  "int_of_float x = (if 0 \<le> x then \<lfloor>x\<rfloor> else \<lceil>x\<rceil>)"

text \<open>
  The same rounding computed on integers, for evaluating \<open>fl\<close> at a fraction
  \<open>p / q\<close> of positive integers: \<open>rne_div\<close> rounds a quotient, \<open>exp_up_frac\<close> and
  \<open>exp_down_frac\<close> find the exponent, and \<open>fl_frac p q = (m, s)\<close> stands for the
  number \<open>m * 2 powi s\<close> (\<open>dy (m, s)\<close>). Lemma \<open>fl_frac_correct\<close> below proves that this is
  \<open>fl (p / q)\<close>.
\<close>

definition rne_div :: "int \<Rightarrow> int \<Rightarrow> int" where
  "rne_div p q =
     (let f = p div q; r = p mod q in
      if 2 * r < q then f else if q < 2 * r then f + 1
      else if even f then f else f + 1)"

function exp_up_frac :: "int \<Rightarrow> int \<Rightarrow> int" where
  "exp_up_frac p q = (if q \<le> 0 \<or> p < 2 * q then 0 else 1 + exp_up_frac p (2 * q))"
  by pat_completeness auto
termination
  by (relation "measure (\<lambda>(p, q). nat (p - q))") auto

function exp_down_frac :: "int \<Rightarrow> int \<Rightarrow> int" where
  "exp_down_frac p q = (if p \<le> 0 \<or> q \<le> p then 0 else exp_down_frac (2 * p) q - 1)"
  by pat_completeness auto
termination
  by (relation "measure (\<lambda>(p, q). nat (q - p))") auto

declare exp_up_frac.simps [simp del] exp_down_frac.simps [simp del]

definition fl_frac :: "int \<Rightarrow> int \<Rightarrow> int \<times> int" where
  "fl_frac p q =
     (let e = (if q \<le> p then exp_up_frac p q else exp_down_frac p q); s = e - 52 in
      (if 0 \<le> s then rne_div p (q * 2 ^ nat s) else rne_div (p * 2 ^ nat (- s)) q, s))"

definition fl_dy :: "int \<times> int \<Rightarrow> int \<times> int" where
  "fl_dy d = (case d of (m, s) \<Rightarrow>
     if 0 \<le> s then fl_frac (m * 2 ^ nat s) 1 else fl_frac m (2 ^ nat (- s)))"

definition trunc_dy :: "int \<times> int \<Rightarrow> int" where
  "trunc_dy d = (case d of (m, s) \<Rightarrow> if 0 \<le> s then m * 2 ^ nat s else m div 2 ^ nat (- s))"

definition dy :: "int \<times> int \<Rightarrow> rat" where
  "dy d = (case d of (m, s) \<Rightarrow> of_int m * 2 powi s)"

section \<open>Colour analysis\<close>

type_synonym rgb = "int \<times> int \<times> int"

text \<open>
  \<open>ThumbnailGenerator.is_color_dark\<close>: \<open>brightness\<close> is its local variable of that
  name, the value of \<open>0.299 * r + 0.587 * g + 0.114 * b\<close> (evaluated from the left).
\<close>

definition brightness :: "rgb \<Rightarrow> rat" where
  "brightness rgb_tuple =
     (case rgb_tuple of (r, g, b) \<Rightarrow>
        fadd (fadd (fmul (literal (299 / 1000)) (float_of_int r))
                   (fmul (literal (587 / 1000)) (float_of_int g)))
             (fmul (literal (114 / 1000)) (float_of_int b)))"

definition is_color_dark :: "rgb \<Rightarrow> bool" where
  "is_color_dark rgb_tuple = (brightness rgb_tuple < literal (1275 / 10))"

section \<open>Gradient background\<close>

text \<open>
  \<open>ThumbnailGenerator.create_gradient_background\<close>, the linear branch (every
  \<open>style\<close> but \<open>"radial"\<close>): for each \<open>y\<close> in \<open>range(height)\<close> one colour is
  computed and the whole scanline \<open>y\<close> is drawn in it. \<open>scanline_color\<close> is the body
  of the loop, \<open>linear_gradient\<close> the colours of the scanlines \<open>0, \<dots>, height - 1\<close>.
  The radial branch, which calls \<open>math.sqrt\<close>, is not modelled.
\<close>

definition channel :: "int \<Rightarrow> int \<Rightarrow> rat \<Rightarrow> int" where
  "channel s e ratio =
     int_of_float (fadd (float_of_int s) (fmul (float_of_int (e - s)) ratio))"

definition scanline_color :: "rgb \<Rightarrow> rgb \<Rightarrow> int \<Rightarrow> int \<Rightarrow> rgb" where
  "scanline_color start_color end_color height y =
     (case (start_color, end_color) of ((r0, g0, b0), (r1, g1, b1)) \<Rightarrow>
        let ratio = int_truediv y height in
        (channel r0 r1 ratio, channel g0 g1 ratio, channel b0 b1 ratio))"

definition linear_gradient :: "rgb \<Rightarrow> rgb \<Rightarrow> int \<Rightarrow> rgb list" where
  "linear_gradient start_color end_color height =
     map (scanline_color start_color end_color height) [0..height - 1]"

text \<open>
  The scanline computation for the gradient from 0 to 255 at the ratio \<open>k / 255\<close>,
  carried out on integers with \<open>fl_frac\<close>: the three roundings (the division, the
  product with 255, the sum with 0) and the truncation give back \<open>k\<close>.
\<close>

definition gradient_check :: "int \<Rightarrow> bool" where
  "gradient_check k =
     (case fl_frac k 255 of (m1, s1) \<Rightarrow>
      case fl_dy (255 * m1, s1) of (m2, s2) \<Rightarrow>
      case fl_dy (m2, s2) of (m3, s3) \<Rightarrow>
        0 < m1 \<and> 0 < m2 \<and> 0 < m3 \<and> trunc_dy (m3, s3) = k)"


section \<open>Output file name\<close>

text \<open>
  The last statements of \<open>ThumbnailGenerator.generate_thumbnail\<close>:
  \<^verbatim>\<open>unique_id = str(uuid.uuid4())[:8]\<close> and
  \<^verbatim>\<open>filename = f"{ticker}_{datetime.now().strftime('%Y%m%d_%H%M%S')}_{unique_id}.png"\<close>.
  The clock reading and the random UUID are inputs of the model.
\<close>

text \<open>The fields of a \<open>datetime\<close> that the format uses.\<close>

record datetime =
  year :: int
  month :: int
  day :: int
  hour :: int
  minute :: int
  second :: int

text \<open>
  The ranges \<open>datetime\<close> guarantees for its fields, with the year from 1000 on
  (below 1000 the C library decides whether \<open>%Y\<close> pads with zeros).
\<close>

definition valid_datetime :: "datetime \<Rightarrow> bool" where
  "valid_datetime t =
     (1000 \<le> year t \<and> year t \<le> 9999 \<and> 1 \<le> month t \<and> month t \<le> 12 \<and>
      1 \<le> day t \<and> day t \<le> 31 \<and> 0 \<le> hour t \<and> hour t \<le> 23 \<and>
      0 \<le> minute t \<and> minute t \<le> 59 \<and> 0 \<le> second t \<and> second t \<le> 59)"

text \<open>The decimal and hexadecimal digit characters, for a digit below the base.\<close>

definition digit_char :: "int \<Rightarrow> char" where
  "digit_char d = ''0123456789'' ! nat d"

definition hex_char :: "int \<Rightarrow> char" where
  "hex_char d = ''0123456789abcdef'' ! nat d"

text \<open>A natural number written with exactly \<open>n\<close> decimal digits, zero-padded (\<open>%02d\<close>, \<open>%04d\<close>).\<close>

fun zero_padded :: "nat \<Rightarrow> int \<Rightarrow> string" where
  "zero_padded 0 v = []"
| "zero_padded (Suc n) v = zero_padded n (v div 10) @ [digit_char (v mod 10)]"

text \<open>\<open>t.strftime('%Y%m%d_%H%M%S')\<close>.\<close>

definition strftime :: "datetime \<Rightarrow> string" where
  "strftime t =
     zero_padded 4 (year t) @ zero_padded 2 (month t) @ zero_padded 2 (day t) @ ''_'' @
     zero_padded 2 (hour t) @ zero_padded 2 (minute t) @ zero_padded 2 (second t)"

text \<open>
  \<open>hex_padded n v\<close> is the natural number \<open>v\<close> written with exactly \<open>n\<close> lower-case hexadecimal
  digits, zero-padded. A UUID is a 128-bit number. \<open>hex32\<close> is \<open>'%032x' % u.int\<close>, its 32 lower-case
  hexadecimal digits from the most significant; \<open>str_uuid\<close> is \<open>str(u)\<close>, the digits
  in groups of 8, 4, 4, 4 and 12 separated by hyphens.
\<close>

fun hex_padded :: "nat \<Rightarrow> int \<Rightarrow> string" where
  "hex_padded 0 v = []"
| "hex_padded (Suc n) v = hex_padded n (v div 16) @ [hex_char (v mod 16)]"

definition hex32 :: "128 word \<Rightarrow> string" where
  "hex32 u = hex_padded 32 (uint u)"

definition str_uuid :: "128 word \<Rightarrow> string" where
  "str_uuid u =
     (let h = hex32 u in
      take 8 h @ ''-'' @ take 4 (drop 8 h) @ ''-'' @ take 4 (drop 12 h) @ ''-'' @
      take 4 (drop 16 h) @ ''-'' @ drop 20 h)"

definition filename :: "string \<Rightarrow> datetime \<Rightarrow> 128 word \<Rightarrow> string" where
  "filename ticker now uuid4 =
     (let unique_id = take 8 (str_uuid uuid4) in
      ticker @ ''_'' @ strftime now @ ''_'' @ unique_id @ ''.png'')"

text \<open>
  The pattern \<open>{TICKER}_{8 digits}_{6 digits}_{8 hex chars}.png\<close> as a test on a
  name: the ticker, then 29 characters laid out as the pattern says.
\<close>

definition is_digit :: "char \<Rightarrow> bool" where
  "is_digit c = (c \<in> set ''0123456789'')"

definition is_hex :: "char \<Rightarrow> bool" where
  "is_hex c = (c \<in> set ''0123456789abcdef'')"

definition matches_pattern :: "string \<Rightarrow> string \<Rightarrow> bool" where
  "matches_pattern ticker name =
     (let r = drop (length ticker) name in
      take (length ticker) name = ticker \<and> length r = 29 \<and>
      take 1 r = ''_'' \<and> list_all is_digit (take 8 (drop 1 r)) \<and>
      take 1 (drop 9 r) = ''_'' \<and> list_all is_digit (take 6 (drop 10 r)) \<and>
      take 1 (drop 16 r) = ''_'' \<and> list_all is_hex (take 8 (drop 17 r)) \<and>
      drop 25 r = ''.png'')"


section \<open>Design system\<close>

text \<open>
  The class \<open>DesignSystem\<close>: three dictionaries keyed by the style preset. A
  dictionary literal is an association list in the order it is written;
  \<open>dict_has d k\<close> is \<open>k in d\<close> and \<open>dict_get d k\<close> is \<open>d[k]\<close>, which raises
  \<open>KeyError\<close> for a missing key.
\<close>

datatype py_error = KeyError | IndexError

definition dict_has :: "('k \<times> 'v) list \<Rightarrow> 'k \<Rightarrow> bool" where
  "dict_has d k = (map_of d k \<noteq> None)"

definition dict_get :: "('k \<times> 'v) list \<Rightarrow> 'k \<Rightarrow> py_error + 'v" where
  "dict_get d k = (case map_of d k of None \<Rightarrow> Inl KeyError | Some v \<Rightarrow> Inr v)"

definition GRADIENTS :: "(string \<times> (string \<times> (rgb \<times> rgb) list) list) list" where
  "GRADIENTS =
     [(''modern'',
        [(''dark'',
            [((15, 23, 42), (30, 41, 59)),
             ((31, 41, 55), (51, 65, 85)),
             ((17, 24, 39), (31, 41, 55)),
             ((22, 30, 46), (37, 50, 72))]),
         (''light'',
            [((248, 250, 252), (241, 245, 249)),
             ((254, 252, 232), (252, 211, 77)),
             ((236, 253, 245), (167, 243, 208)),
             ((245, 243, 255), (196, 181, 253))])]),
      (''corporate'',
        [(''dark'',
            [((30, 58, 138), (29, 78, 216)),
             ((91, 33, 182), (124, 58, 237)),
             ((6, 78, 59), (5, 150, 105)),
             ((153, 27, 27), (220, 38, 38))]),
         (''light'',
            [((255, 255, 255), (249, 250, 251)),
             ((249, 250, 251), (243, 244, 246)),
             ((240, 249, 255), (219, 234, 254)),
             ((247, 254, 231), (220, 252, 231))])]),
      (''vibrant'',
        [(''dark'',
            [((147, 51, 234), (79, 70, 229)),
             ((236, 72, 153), (147, 51, 234)),
             ((34, 197, 94), (20, 184, 166)),
             ((251, 113, 133), (244, 63, 94))]),
         (''light'',
            [((254, 240, 138), (251, 191, 36)),
             ((165, 243, 252), (34, 211, 238)),
             ((254, 205, 211), (251, 113, 133)),
             ((196, 181, 253), (139, 92, 246))])])]"

record typography =
  title_size :: int
  subtitle_size :: int
  spacing :: int

definition TYPOGRAPHY :: "(string \<times> typography) list" where
  "TYPOGRAPHY =
     [(''modern'', \<lparr>title_size = 72, subtitle_size = 40, spacing = 15\<rparr>),
      (''corporate'', \<lparr>title_size = 68, subtitle_size = 38, spacing = 12\<rparr>),
      (''vibrant'', \<lparr>title_size = 76, subtitle_size = 42, spacing = 18\<rparr>)]"

text \<open>The two ratios of a layout are floats, written as decimal literals.\<close>

record layout =
  logo_area_ratio :: rat
  padding :: int
  logo_max_ratio :: rat

definition LAYOUTS :: "(string \<times> layout) list" where
  "LAYOUTS =
     [(''modern'', \<lparr>logo_area_ratio = literal (35 / 100), padding = 50,
                     logo_max_ratio = literal (7 / 10)\<rparr>),
      (''corporate'', \<lparr>logo_area_ratio = literal (30 / 100), padding = 40,
                        logo_max_ratio = literal (6 / 10)\<rparr>),
      (''vibrant'', \<lparr>logo_area_ratio = literal (40 / 100), padding = 60,
                      logo_max_ratio = literal (8 / 10)\<rparr>)]"

section \<open>Design decisions of the thumbnail\<close>

text \<open>
  \<open>random.choice(seq)\<close>: the generator's draw is an input; \<open>pick\<close> selects the
  element at \<open>pick mod len(seq)\<close>. An empty sequence raises \<open>IndexError\<close>.
\<close>

definition choice :: "'a list \<Rightarrow> nat \<Rightarrow> py_error + 'a" where
  "choice seq pick = (if seq = [] then Inl IndexError else Inr (seq ! (pick mod length seq)))"

text \<open>
  What \<open>ThumbnailGenerator.generate_thumbnail\<close> decides before it draws: the preset
  it uses, the typography and layout it looks up, the tone of the background, the
  gradient colours, the text colours and the gradient style.
\<close>

record design =
  preset :: string
  typo :: typography
  lay :: layout
  use_dark_bg :: bool
  gradient_type :: string
  bg_start :: rgb
  bg_end :: rgb
  text_color :: string
  subtitle_color :: string
  gradient_style :: string

text \<open>
  The statements of \<open>generate_thumbnail\<close> from \<open># Validate style preset\<close> to the
  choice of \<open>gradient_style\<close>, in the order of the source. The inputs beside
  \<open>style_preset\<close> are what the environment supplies: \<open>logo_exists\<close> (the outcome of
  probing the logo folder), \<open>dominant_color\<close> (the result of \<open>get_dominant_color\<close>,
  read only when a logo exists), \<open>coin\<close> (the draw of
  \<open>random.choice([True, False])\<close>) and \<open>pick\<close> (the draw that selects the colour pair).
\<close>

definition thumbnail_design ::
  "string \<Rightarrow> bool \<Rightarrow> rgb \<Rightarrow> bool \<Rightarrow> nat \<Rightarrow> py_error + design"
where
  "thumbnail_design style_preset logo_exists dominant_color coin pick =
     (let style_preset =
            (if \<not> dict_has GRADIENTS style_preset then ''modern'' else style_preset) in
      case dict_get TYPOGRAPHY style_preset of Inl e \<Rightarrow> Inl e | Inr typography \<Rightarrow>
      case dict_get LAYOUTS style_preset of Inl e \<Rightarrow> Inl e | Inr layout \<Rightarrow>
      let use_dark_bg = (if logo_exists then \<not> is_color_dark dominant_color else coin);
          gradient_type = (if use_dark_bg then ''dark'' else ''light'') in
      case dict_get GRADIENTS style_preset of Inl e \<Rightarrow> Inl e | Inr by_tone \<Rightarrow>
      case dict_get by_tone gradient_type of Inl e \<Rightarrow> Inl e | Inr pairs \<Rightarrow>
      case choice pairs pick of Inl e \<Rightarrow> Inl e | Inr (start_color, end_color) \<Rightarrow>
      Inr \<lparr>preset = style_preset, typo = typography, lay = layout,
           use_dark_bg = use_dark_bg, gradient_type = gradient_type,
           bg_start = start_color, bg_end = end_color,
           text_color = (if use_dark_bg then ''#FFFFFF'' else ''#1F2937''),
           subtitle_color = (if use_dark_bg then ''#D1D5DB'' else ''#6B7280''),
           gradient_style = (if style_preset = ''vibrant'' then ''radial'' else ''linear'')\<rparr>)"


section \<open>Facts about the string operations\<close>

lemma str_contains_iff: "str_contains sub s \<longleftrightarrow> sublist sub s"
  by (induction s) (auto simp: sublist_Cons_right)

lemma str_replace_skip:
  "old \<noteq> [] \<Longrightarrow> hd old \<notin> set xs \<Longrightarrow> str_replace old new (xs @ ys) = xs @ str_replace old new ys"
proof (induction xs)
  case Nil
  then show ?case by simp
next
  case (Cons x xs)
  then have "\<not> prefix old (x # xs @ ys)"
    by (cases old) auto
  with Cons show ?case by simp
qed

lemma sublist_drop_foreign:
  "sublist sub (xs @ ys) \<Longrightarrow> sub \<noteq> [] \<Longrightarrow> hd sub \<notin> set xs \<Longrightarrow> sublist sub ys"
proof (induction xs)
  case Nil
  then show ?case by simp
next
  case (Cons x xs)
  then have "\<not> prefix sub (x # xs @ ys)"
    by (cases sub) auto
  with Cons show ?case by (auto simp: sublist_Cons_right)
qed

lemma sublist_str_replace:
  "old \<noteq> [] \<Longrightarrow> sub \<noteq> [] \<Longrightarrow> hd sub \<notin> set old \<Longrightarrow> hd old \<notin> set sub \<Longrightarrow>
   sublist sub s \<Longrightarrow> sublist sub (str_replace old new s)"
proof (induction old new s rule: str_replace.induct)
  case (1 old new)
  then show ?case by simp
next
  case (2 old new c cs)
  show ?case
  proof (cases "prefix old (c # cs)")
    case True
    then obtain rest where rest: "c # cs = old @ rest"
      by (auto simp: prefix_def)
    then have d: "drop (length old) (c # cs) = rest" by simp
    have "sublist sub (old @ rest)" using "2.prems" rest by simp
    then have "sublist sub rest"
      using sublist_drop_foreign [of sub old rest] "2.prems" by blast
    then have "sublist sub (str_replace old new rest)"
      using "2.IH"(2) True "2.prems" d by simp
    then have "sublist sub (new @ str_replace old new rest)"
      by (simp add: sublist_append)
    then show ?thesis using True "2.prems" d by simp
  next
    case False
    from "2.prems" consider "prefix sub (c # cs)" | "sublist sub cs"
      by (auto simp: sublist_Cons_right)
    then show ?thesis
    proof cases
      case 1
      then obtain rest where rest: "c # cs = sub @ rest"
        by (auto simp: prefix_def)
      have "str_replace old new (sub @ rest) = sub @ str_replace old new rest"
        by (rule str_replace_skip) (use "2.prems" in auto)
      then show ?thesis using rest by (metis sublist_appendI append_Nil)
    next
      case 2
      then have "sublist sub (str_replace old new cs)"
        using "2.IH"(3) False "2.prems" by simp
      then show ?thesis using False "2.prems" by (simp add: sublist_Cons_right)
    qed
  qed
qed

lemma dropWhile_keeps:
  assumes "sub \<noteq> []" "\<not> P (hd sub)"
  shows "\<exists>ps'. dropWhile P (ps @ sub @ ss) = ps' @ sub @ ss"
proof (cases "\<forall>x\<in>set ps. P x")
  case True
  then have "dropWhile P (ps @ sub @ ss) = dropWhile P (sub @ ss)"
    by (simp add: dropWhile_append)
  also have "\<dots> = sub @ ss" using assms by (cases sub) auto
  finally show ?thesis by (intro exI [of _ "[]"]) simp
next
  case False
  then have "dropWhile P (ps @ sub @ ss) = dropWhile P ps @ sub @ ss"
    by (auto simp: dropWhile_append)
  then show ?thesis by blast
qed

lemma sublist_strip:
  assumes "sublist sub s" "sub \<noteq> []" "\<not> isspace (hd sub)" "\<not> isspace (last sub)"
  shows "sublist sub (strip s)"
proof -
  from assms(1) obtain ps ss where "s = ps @ sub @ ss"
    by (auto simp: sublist_def)
  then obtain ps' where 1: "dropWhile isspace s = ps' @ sub @ ss"
    using dropWhile_keeps [of sub isspace ps ss] assms by auto
  have "rev sub \<noteq> []" "\<not> isspace (hd (rev sub))"
    using assms by (auto simp: hd_rev)
  then obtain ss' where "dropWhile isspace (rev ss @ rev sub @ rev ps') = ss' @ rev sub @ rev ps'"
    using dropWhile_keeps [of "rev sub" isspace "rev ss" "rev ps'"] by auto
  then have "strip s = ps' @ sub @ rev ss'"
    by (simp add: strip_def 1)
  then show ?thesis by (auto simp: sublist_def)
qed

lemma str_replace_absent:
  "old \<noteq> [] \<Longrightarrow> \<not> sublist old s \<Longrightarrow> str_replace old new s = s"
  by (induction s) (auto simp: sublist_Cons_right)

lemma strip_sublist: "sublist (strip s) s"
proof -
  have a: "sublist (dropWhile isspace s) s"
    by (metis suffix_dropWhile suffix_imp_sublist)
  have "prefix (rev (dropWhile isspace (rev t))) t" for t
    by (metis suffix_dropWhile suffix_to_prefix rev_rev_ident)
  then have "sublist (strip s) (dropWhile isspace s)"
    unfolding strip_def by (rule prefix_imp_sublist)
  with a show ?thesis by (metis sublist_order.order.trans)
qed

lemma strip_idem: "strip (strip s) = strip s"
proof -
  define t where "t = dropWhile isspace s"
  define u where "u = dropWhile isspace (rev t)"
  have su: "strip s = rev u" by (simp add: strip_def t_def u_def)
  have "dropWhile isspace (rev u) = rev u"
  proof (cases "rev u")
    case Nil
    then show ?thesis by simp
  next
    case (Cons a as)
    have "prefix (rev u) t"
      unfolding u_def by (metis suffix_dropWhile suffix_to_prefix rev_rev_ident)
    then have "hd t = a" "t \<noteq> []" using Cons by (auto simp: prefix_def)
    then have "\<not> isspace a"
      unfolding t_def using hd_dropWhile [of isspace s] by auto
    then show ?thesis using Cons by simp
  qed
  moreover have "dropWhile isspace u = u"
    unfolding u_def by (simp add: dropWhile_idem)
  ultimately have "strip (rev u) = rev u" by (simp add: strip_def)
  then show ?thesis by (simp add: su)
qed


section \<open>Headline cleaning: properties\<close>

text \<open>
  Claim C1 (as amended). \<open>clean_title\<close> removes every occurrence of
  \<open>"- Intimation"\<close> and trims the whitespace at both ends. An input that contains
  \<open>"Listing Obligations"\<close> yields exactly \<open>"Important Update"\<close>. When the trimmed
  text does not contain \<open>"Listing Obligations"\<close>, the result is that trimmed text; an
  input that contains neither substring is returned with only the whitespace at its two
  ends removed. No letter changes case.
\<close>

theorem clean_title_spec:
  "(str_contains ''Listing Obligations'' prompt \<longrightarrow> clean_title prompt = ''Important Update'') \<and>
   (\<not> str_contains ''Listing Obligations'' (strip (str_replace ''- Intimation'' [] prompt)) \<longrightarrow>
      clean_title prompt = strip (str_replace ''- Intimation'' [] prompt)) \<and>
   (\<not> str_contains ''- Intimation'' prompt \<and> \<not> str_contains ''Listing Obligations'' prompt \<longrightarrow>
      clean_title prompt = strip prompt)"
proof (intro conjI impI)
  assume "str_contains ''Listing Obligations'' prompt"
  then have "sublist ''Listing Obligations'' prompt"
    by (simp only: str_contains_iff)
  then have "sublist ''Listing Obligations'' (str_replace ''- Intimation'' [] prompt)"
    by (rule sublist_str_replace [rotated 4]) simp_all
  then have "sublist ''Listing Obligations'' (strip (str_replace ''- Intimation'' [] prompt))"
    by (rule sublist_strip) (simp_all add: isspace_def)
  then show "clean_title prompt = ''Important Update''"
    by (simp only: clean_title_def Let_def str_contains_iff if_True)
next
  assume "\<not> str_contains ''Listing Obligations'' (strip (str_replace ''- Intimation'' [] prompt))"
  then show "clean_title prompt = strip (str_replace ''- Intimation'' [] prompt)"
    by (simp only: clean_title_def Let_def if_False strip_idem)
next
  assume a: "\<not> str_contains ''- Intimation'' prompt \<and> \<not> str_contains ''Listing Obligations'' prompt"
  then have r: "str_replace ''- Intimation'' [] prompt = prompt"
    by (intro str_replace_absent) (simp_all add: str_contains_iff)
  have "\<not> sublist ''Listing Obligations'' (strip prompt)"
    using a strip_sublist [of prompt] sublist_order.order.trans
    unfolding str_contains_iff by blast
  then show "clean_title prompt = strip prompt"
    by (simp only: clean_title_def Let_def r str_contains_iff if_False strip_idem)
qed

text \<open>The three cases of C1 on concrete headlines.\<close>

theorem clean_title_spec_witness:
  "clean_title ''Compliance under Listing Obligations - Intimation'' = ''Important Update'' \<and>
   clean_title ''Board Meeting - Intimation'' = ''Board Meeting'' \<and>
   clean_title '' Dividend declared '' = ''Dividend declared''"
proof -
  have h1: "str_contains ''Listing Obligations'' ''Compliance under Listing Obligations - Intimation''"
    by simp
  have h2: "\<not> str_contains ''Listing Obligations'' (strip (str_replace ''- Intimation'' [] ''Board Meeting - Intimation''))"
    by (simp add: strip_def isspace_def)
  have e2: "strip (str_replace ''- Intimation'' [] ''Board Meeting - Intimation'') = ''Board Meeting''"
    by (simp add: strip_def isspace_def)
  have h3: "\<not> str_contains ''- Intimation'' '' Dividend declared '' \<and>
           \<not> str_contains ''Listing Obligations'' '' Dividend declared ''"
    by simp
  have e3: "strip '' Dividend declared '' = ''Dividend declared''"
    by (simp add: strip_def isspace_def)
  show ?thesis
    using clean_title_spec [of "''Compliance under Listing Obligations - Intimation''"]
      clean_title_spec [of "''Board Meeting - Intimation''"]
      clean_title_spec [of "'' Dividend declared ''"] h1 h2 e2 h3 e3
    by metis
qed

text \<open>
  C1 as first stated says that an input with neither substring passes through
  unchanged; a trailing space is removed.
\<close>

theorem clean_title_unchanged_counterexample:
  "\<not> str_contains ''- Intimation'' ''Q3 Results '' \<and>
   \<not> str_contains ''Listing Obligations'' ''Q3 Results '' \<and>
   clean_title ''Q3 Results '' = ''Q3 Results'' \<and>
   clean_title ''Q3 Results '' \<noteq> ''Q3 Results ''"
  by (simp add: clean_title_def strip_def isspace_def)

section \<open>Text wrapping: properties\<close>

lemma str_split_Nil:
  assumes "dropWhile isspace s = []"
  shows "str_split s = []"
  by (subst str_split.simps) (simp only: assms list.case)

lemma str_split_Cons:
  assumes "dropWhile isspace s = c # cs"
  shows "str_split s = takeWhile (\<lambda>x. \<not> isspace x) (c # cs)
                 # str_split (dropWhile (\<lambda>x. \<not> isspace x) (c # cs))"
  by (subst str_split.simps) (simp only: assms list.case)

lemma str_split_words:
  "w \<in> set (str_split s) \<Longrightarrow> w \<noteq> [] \<and> (\<forall>c\<in>set w. \<not> isspace c)"
proof (induction s rule: str_split.induct)
  case (1 s)
  show ?case
  proof (cases "dropWhile isspace s")
    case Nil
    with "1.prems" show ?thesis by (simp only: str_split_Nil) simp
  next
    case (Cons c cs)
    have nc: "\<not> isspace c"
      using Cons hd_dropWhile [of isspace s] by auto
    from "1.prems" consider
      "w = takeWhile (\<lambda>x. \<not> isspace x) (c # cs)"
      | "w \<in> set (str_split (dropWhile (\<lambda>x. \<not> isspace x) (c # cs)))"
      unfolding str_split_Cons [OF Cons] by auto
    then show ?thesis
    proof cases
      case 1
      have "w \<noteq> []" using 1 nc by simp
      moreover have "\<forall>c\<in>set w. \<not> isspace c"
        unfolding 1 by (blast dest: set_takeWhileD)
      ultimately show ?thesis by blast
    next
      case 2
      then show ?thesis by (rule "1.IH" [OF Cons])
    qed
  qed
qed

lemma str_split_no_empty: "[] \<notin> set (str_split s)"
  using str_split_words [of "[]" s] by blast


lemma flush_simps:
  "flush (lines, cur) = (if cur \<noteq> [] then lines @ [cur] else lines)"
  by (simp add: flush_def)

lemma wrap_words_step:
  "wrap_words width max_width lines cur (word # words) =
     (if width (if cur \<noteq> [] then cur @ '' '' @ word else word) \<le> max_width
      then wrap_words width max_width lines (if cur \<noteq> [] then cur @ '' '' @ word else word) words
      else wrap_words width max_width (if cur \<noteq> [] then lines @ [cur] else lines) word words)"
  by (simp only: wrap_words.simps Let_def)

lemma wrap_words_no_empty:
  "[] \<notin> set lines \<Longrightarrow> [] \<notin> set words \<Longrightarrow>
   [] \<notin> set (flush (wrap_words width max_width lines cur words))"
proof (induction words arbitrary: lines cur)
  case Nil
  then show ?case by (simp add: flush_simps)
next
  case (Cons word words)
  then have w: "word \<noteq> []" "[] \<notin> set words" by auto
  have l: "[] \<notin> set (if cur \<noteq> [] then lines @ [cur] else lines)"
    using Cons.prems(1) by simp
  show ?case
  proof (cases "width (if cur \<noteq> [] then cur @ '' '' @ word else word) \<le> max_width")
    case True
    show ?thesis
      unfolding wrap_words_step
      using Cons.IH [OF Cons.prems(1) w(2)] by (simp only: True if_True simp_thms)
  next
    case False
    show ?thesis
      unfolding wrap_words_step
      using Cons.IH [OF l w(2)] by (simp only: False if_False simp_thms)
  qed
qed

lemma wrap_parts_step:
  "wrap_parts width max_width lines (p # parts) =
     (if strip p = [] then wrap_parts width max_width lines parts
      else if width (strip p) \<le> max_width
        then wrap_parts width max_width (lines @ [strip p]) parts
      else wrap_parts width max_width
             (flush (wrap_words width max_width lines [] (str_split (strip p)))) parts)"
  by (simp only: wrap_parts.simps Let_def)

lemma wrap_parts_no_empty:
  "[] \<notin> set lines \<Longrightarrow> [] \<notin> set (wrap_parts width max_width lines parts)"
proof (induction parts arbitrary: lines)
  case Nil
  then show ?case by simp
next
  case (Cons p parts)
  have a: "[] \<notin> set (flush (wrap_words width max_width lines [] (str_split (strip p))))"
    using Cons.prems str_split_no_empty by (rule wrap_words_no_empty)
  have b: "strip p \<noteq> [] \<Longrightarrow> [] \<notin> set (lines @ [strip p])"
    using Cons.prems by simp
  show ?case
    unfolding wrap_parts_step
    using Cons.IH [OF Cons.prems] Cons.IH [OF a] Cons.IH [OF b]
    by (cases "strip p = []"; cases "width (strip p) \<le> max_width") simp_all
qed

text \<open>
  Claim C9. For every text, font and width budget, no line returned by \<open>wrap_text\<close>
  is the empty string: a segment that is empty after trimming is skipped, and the
  accumulator is appended only when it is non-empty.
\<close>

theorem wrap_text_lines_nonempty: "[] \<notin> set (wrap_text width text max_width)"
proof (cases "str_contains '' - '' text")
  case True
  then show ?thesis
    using wrap_parts_no_empty [of "[]"] by (simp add: wrap_text_def)
next
  case False
  have "[] \<notin> set (flush (wrap_words width max_width [] [] (str_split text)))"
    by (rule wrap_words_no_empty) (simp_all add: str_split_no_empty)
  with False show ?thesis by (simp add: wrap_text_def)
qed

lemma str_join_Cons:
  "str_join sep (x # xs) = (if xs = [] then x else x @ sep @ str_join sep xs)"
  by (cases xs) simp_all

lemma str_join_snoc:
  "str_join sep (xs @ [w]) = (if xs = [] then w else str_join sep xs @ sep @ w)"
  by (induction xs) (simp_all add: str_join_Cons)

lemma str_join_merge:
  "str_join sep (xs @ (a @ sep @ b) # ys) = str_join sep (xs @ a # b # ys)"
  by (induction xs) (simp_all add: str_join_Cons)

lemma str_join_eq_Nil:
  "[] \<notin> set xs \<Longrightarrow> str_join sep xs = [] \<longleftrightarrow> xs = []"
  by (cases xs) (auto simp: str_join_Cons)

lemma wrap_words_join:
  "[] \<notin> set words \<Longrightarrow>
   str_join '' '' (flush (wrap_words width max_width lines cur words)) =
   str_join '' '' (flush (lines, cur) @ words)"
proof (induction words arbitrary: lines cur)
  case Nil
  then show ?case by simp
next
  case (Cons word words)
  then have w: "word \<noteq> []" "[] \<notin> set words" by auto
  note IH = Cons.IH [OF w(2)]
  show ?case
  proof (cases "cur = []")
    case True
    have "wrap_words width max_width lines cur (word # words) =
        wrap_words width max_width lines word words"
      by (simp add: wrap_words_step True)
    then show ?thesis
      using IH [of lines word] w by (simp add: True flush_simps)
  next
    case False
    show ?thesis
    proof (cases "width (cur @ '' '' @ word) \<le> max_width")
      case True
      have "wrap_words width max_width lines cur (word # words) =
          wrap_words width max_width lines (cur @ '' '' @ word) words"
        using True False by (simp add: wrap_words_step)
      then show ?thesis
        using IH [of lines "cur @ '' '' @ word"] False
          str_join_merge [of "'' ''" lines cur word words]
        by (simp add: flush_simps)
    next
      case nofit: False
      have "wrap_words width max_width lines cur (word # words) =
          wrap_words width max_width (lines @ [cur]) word words"
        using nofit False by (simp add: wrap_words_step)
      then show ?thesis
        using IH [of "lines @ [cur]" word] False w by (simp add: flush_simps)
    qed
  qed
qed

text \<open>
  Claim C10. For a text without \<open>" - "\<close>, and every font and width budget, the
  returned lines joined by single spaces are the words of the text joined by single
  spaces: wrapping loses, repeats, reorders and alters no word.
\<close>

theorem wrap_text_join:
  assumes "\<not> str_contains '' - '' text"
  shows "str_join '' '' (wrap_text width text max_width) = str_join '' '' (str_split text)"
  using assms wrap_words_join [OF str_split_no_empty, of width max_width "[]" "[]" "text"]
  by (simp add: wrap_text_def flush_simps)


theorem wrap_text_join_witness:
  "\<not> str_contains '' - '' ''Board  of Directors   meeting outcome '' \<and>
   wrap_text (\<lambda>s. 10 * int (length s)) ''Board  of Directors   meeting outcome '' 120
     = [''Board of'', ''Directors'', ''meeting'', ''outcome''] \<and>
   str_join '' '' (wrap_text (\<lambda>s. 10 * int (length s)) ''Board  of Directors   meeting outcome '' 120)
     = ''Board of Directors meeting outcome''"
proof -
  have 1: "\<not> str_contains '' - '' ''Board  of Directors   meeting outcome ''" by simp
  have 2: "str_join '' '' (str_split ''Board  of Directors   meeting outcome '')
      = ''Board of Directors meeting outcome''" by code_simp
  have 3: "wrap_text (\<lambda>s. 10 * int (length s)) ''Board  of Directors   meeting outcome '' 120
     = [''Board of'', ''Directors'', ''meeting'', ''outcome'']" by code_simp
  show ?thesis
    using wrap_text_join [OF 1, of "\<lambda>s. 10 * int (length s)" 120] 1 2 3 by simp
qed


lemma wrap_words_fit:
  "[] \<notin> set pre \<Longrightarrow> [] \<notin> set words \<Longrightarrow>
   \<forall>k\<in>{1..length words}. width (str_join '' '' (pre @ take k words)) \<le> max_width \<Longrightarrow>
   wrap_words width max_width lines (str_join '' '' pre) words =
     (lines, str_join '' '' (pre @ words))"
proof (induction words arbitrary: pre)
  case Nil
  then show ?case by simp
next
  case (Cons word words)
  then have w: "word \<noteq> []" "[] \<notin> set words" by auto
  have t: "(if str_join '' '' pre \<noteq> [] then str_join '' '' pre @ '' '' @ word else word) =
      str_join '' '' (pre @ [word])"
    using Cons.prems(1) by (simp add: str_join_snoc str_join_eq_Nil)
  have "width (str_join '' '' (pre @ take 1 (word # words))) \<le> max_width"
    using Cons.prems(3) by (intro bspec [OF Cons.prems(3)]) simp
  then have fit: "width (str_join '' '' (pre @ [word])) \<le> max_width" by simp
  have rest: "\<forall>k\<in>{1..length words}.
      width (str_join '' '' ((pre @ [word]) @ take k words)) \<le> max_width"
  proof
    fix k assume "k \<in> {1..length words}"
    then have "Suc k \<in> {1..length (word # words)}" by simp
    from bspec [OF Cons.prems(3) this] show
      "width (str_join '' '' ((pre @ [word]) @ take k words)) \<le> max_width" by simp
  qed
  have p: "[] \<notin> set (pre @ [word])" using Cons.prems(1) w by simp
  have "wrap_words width max_width lines (str_join '' '' pre) (word # words) =
      wrap_words width max_width lines (str_join '' '' (pre @ [word])) words"
    unfolding wrap_words_step t using fit by (simp only: if_True)
  also have "\<dots> = (lines, str_join '' '' ((pre @ [word]) @ words))"
    by (rule Cons.IH [OF p w(2) rest])
  finally show ?case by simp
qed

lemma strip_rstrip: "strip s = rstrip (dropWhile isspace s)"
  by (simp add: strip_def rstrip_def)

lemma rstrip_append_nonspace:
  assumes "t \<noteq> []" "\<not> isspace (last t)"
  shows "rstrip (s @ t) = s @ t"
proof -
  have "dropWhile isspace (rev t @ rev s) = rev t @ rev s"
    using assms by (cases "rev t") (auto simp: last_rev [symmetric] hd_rev)
  then show ?thesis by (simp add: rstrip_def)
qed

lemma rstrip_append:
  "rstrip (s @ t) = (if \<forall>c\<in>set t. isspace c then rstrip s else s @ rstrip t)"
  by (simp add: rstrip_def dropWhile_append)

lemma rstrip_Nil_iff: "rstrip s = [] \<longleftrightarrow> (\<forall>c\<in>set s. isspace c)"
  by (simp add: rstrip_def dropWhile_eq_Nil_conv)

lemma rstrip_word:
  assumes "w \<noteq> []" "\<forall>c\<in>set w. \<not> isspace c"
  shows "rstrip w = w"
proof -
  have "\<not> isspace (hd (rev w))" using assms by (simp add: hd_rev)
  then have "dropWhile isspace (rev w) = rev w"
    using assms by (cases "rev w") auto
  then show ?thesis by (simp add: rstrip_def)
qed

lemma single_spaced_sublist:
  "single_spaced s \<Longrightarrow> sublist t s \<Longrightarrow> single_spaced t"
  unfolding single_spaced_def str_contains_iff
  by (meson set_mono_sublist subsetD sublist_order.order.trans)


lemma space_run_single:
  assumes "sp \<noteq> []" "\<forall>c\<in>set sp. c = CHR '' ''" "\<not> sublist ''  '' (w @ sp @ x)"
  shows "sp = '' ''"
proof (cases sp)
  case Nil
  with assms show ?thesis by simp
next
  case (Cons a as)
  show ?thesis
  proof (cases as)
    case Nil
    with Cons assms show ?thesis by simp
  next
    case (Cons b bs)
    with \<open>sp = a # as\<close> assms(2) have "sp = ''  '' @ bs" by simp
    then have "w @ sp @ x = w @ ''  '' @ (bs @ x)" by simp
    then have "sublist ''  '' (w @ sp @ x)"
      by (simp only: sublist_appendI)
    with assms(3) show ?thesis by simp
  qed
qed

lemma str_join_split_strip:
  "single_spaced (strip s) \<Longrightarrow> str_join '' '' (str_split s) = strip s"
proof (induction s rule: str_split.induct)
  case (1 s)
  show ?case
  proof (cases "dropWhile isspace s")
    case Nil
    have "strip s = rstrip []" by (simp only: strip_rstrip Nil)
    then show ?thesis by (simp add: str_split_Nil [OF Nil] rstrip_def)
  next
    case (Cons c cs)
    define w where "w = takeWhile (\<lambda>x. \<not> isspace x) (c # cs)"
    define rest where "rest = dropWhile (\<lambda>x. \<not> isspace x) (c # cs)"
    have nc: "\<not> isspace c" using Cons hd_dropWhile [of isspace s] by auto
    have t: "c # cs = w @ rest" by (simp add: w_def rest_def)
    have w: "w \<noteq> []" "\<forall>c\<in>set w. \<not> isspace c"
      using nc by (auto simp: w_def dest: set_takeWhileD)
    have sp: "str_split s = w # str_split rest"
      unfolding w_def rest_def by (rule str_split_Cons [OF Cons])
    have st: "strip s = (if \<forall>c\<in>set rest. isspace c then w else w @ rstrip rest)"
      by (simp add: strip_rstrip Cons t rstrip_append rstrip_word [OF w])
    show ?thesis
    proof (cases "\<forall>c\<in>set rest. isspace c")
      case True
      then have "dropWhile isspace rest = []" by (simp add: dropWhile_eq_Nil_conv)
      then have "str_split rest = []" by (rule str_split_Nil)
      then show ?thesis using True by (simp add: sp st)
    next
      case False
      define gap where "gap = takeWhile isspace rest"
      define t' where "t' = dropWhile isspace rest"
      have r: "rest = gap @ t'" by (simp add: gap_def t'_def)
      have t'ne: "t' \<noteq> []" using False by (simp add: t'_def dropWhile_eq_Nil_conv)
      then have "\<not> isspace (hd t')"
        unfolding t'_def by (rule hd_dropWhile)
      then have t'ns: "\<not> (\<forall>c\<in>set t'. isspace c)"
        using t'ne by (cases t') auto
      have restne: "rest \<noteq> []" using False by auto
      then have "isspace (hd rest)"
        unfolding rest_def using hd_dropWhile [of "\<lambda>x. \<not> isspace x" "c # cs"] by blast
      then have gapne: "gap \<noteq> []"
        using restne by (cases rest) (auto simp: gap_def)
      have gapsp: "\<forall>c\<in>set gap. isspace c"
        by (auto simp: gap_def dest: set_takeWhileD)
      have srest: "strip rest = rstrip t'" by (simp add: strip_rstrip t'_def)
      have "rstrip (gap @ t') = gap @ rstrip t'"
        by (simp only: rstrip_append t'ns if_False)
      then have rr: "rstrip rest = gap @ rstrip t'"
        by (simp only: r [symmetric])
      have st': "strip s = w @ gap @ strip rest"
        by (simp only: st False if_False rr srest)
      have ne: "strip rest \<noteq> []"
        using t'ns by (simp add: srest rstrip_Nil_iff)
      have ss: "single_spaced (w @ gap @ strip rest)"
        using "1.prems" by (simp only: st')
      then have "\<forall>c\<in>set gap. c = CHR '' ''"
        using gapsp by (auto simp: single_spaced_def)
      moreover have "\<not> sublist ''  '' (w @ gap @ strip rest)"
        using ss by (simp add: single_spaced_def str_contains_iff)
      ultimately have gap: "gap = '' ''"
        using gapne by (intro space_run_single [of gap w "strip rest"])
      have "sublist (strip rest) (w @ gap @ strip rest)"
        by (metis sublist_append_leftI append.assoc)
      then have "single_spaced (strip rest)"
        using ss single_spaced_sublist by blast
      then have ih: "str_join '' '' (str_split rest) = strip rest"
        using "1.IH" [OF Cons] by (simp only: rest_def)
      then have "str_split rest \<noteq> []" using ne by auto
      then have "str_join '' '' (w # str_split rest) = w @ '' '' @ str_join '' '' (str_split rest)"
        by (simp add: str_join_Cons)
      then show ?thesis
        by (simp only: sp st' gap ih)
    qed
  qed
qed


text \<open>
  Claim C2 (as amended). For a text without \<open>" - "\<close> that has at least one word,
  and a width budget that every leading run of its words, joined by single spaces,
  fits, \<open>wrap_text\<close> returns exactly one line: the words of the text joined by
  single spaces. That line is the trimmed text whenever the only whitespace of the
  trimmed text is single spaces between the words.
\<close>

theorem wrap_text_single_line:
  assumes "\<not> str_contains '' - '' text"
    and "str_split text \<noteq> []"
    and "\<forall>k\<in>{1..length (str_split text)}.
           width (str_join '' '' (take k (str_split text))) \<le> max_width"
  shows "wrap_text width text max_width = [str_join '' '' (str_split text)] \<and>
         (single_spaced (strip text) \<longrightarrow> wrap_text width text max_width = [strip text])"
proof -
  have "wrap_words width max_width [] (str_join '' '' []) (str_split text) =
      ([], str_join '' '' ([] @ str_split text))"
    by (rule wrap_words_fit) (use assms(3) str_split_no_empty in simp_all)
  moreover have "str_join '' '' (str_split text) \<noteq> []"
    using assms(2) str_split_no_empty by (simp add: str_join_eq_Nil)
  ultimately have "wrap_text width text max_width = [str_join '' '' (str_split text)]"
    using assms(1) by (simp add: wrap_text_def flush_simps)
  then show ?thesis
    using str_join_split_strip [of "text"] by simp
qed

text \<open>A headline with single spaces between its words and spaces at both ends.\<close>

theorem wrap_text_single_line_witness:
  "wrap_text (\<lambda>s. 10 * int (length s)) ''  Board Meeting '' 200 = [''Board Meeting''] \<and>
   strip ''  Board Meeting '' = ''Board Meeting'' \<and>
   single_spaced (strip ''  Board Meeting '')"
proof -
  have s: "str_split ''  Board Meeting '' = [''Board'', ''Meeting'']"
    by code_simp
  have t: "strip ''  Board Meeting '' = ''Board Meeting''"
    by code_simp
  have h1: "\<not> str_contains '' - '' ''  Board Meeting ''" by simp
  have h2: "str_split ''  Board Meeting '' \<noteq> []" by (simp add: s)
  have r: "{Suc 0..Suc (Suc 0)} = {Suc 0, Suc (Suc 0)}" by auto
  have h3: "\<forall>k\<in>{1..length (str_split ''  Board Meeting '')}.
      (\<lambda>s. 10 * int (length s)) (str_join '' '' (take k (str_split ''  Board Meeting '')))
        \<le> 200"
    by (simp add: s r)
  have h4: "single_spaced (strip ''  Board Meeting '')"
    unfolding t by code_simp
  have "wrap_text (\<lambda>s. 10 * int (length s)) ''  Board Meeting '' 200 =
      [strip ''  Board Meeting '']"
    using wrap_text_single_line [OF h1 h2 h3] h4 by blast
  then show ?thesis
    using t h4 by simp
qed

text \<open>
  C2 as first stated fails in two ways, shown with a font in which every character is
  10 pixels wide and a budget equal to the width of the whole text: the empty text
  gives no line at all, and a text with a double space gives a line that differs from
  the trimmed text.
\<close>

theorem wrap_text_single_line_counterexample:
  "\<not> str_contains '' - '' '''' \<and>
   wrap_text (\<lambda>s. 10 * int (length s)) '''' 0 = [] \<and>
   \<not> str_contains '' - '' ''a  b'' \<and>
   (\<lambda>s. 10 * int (length s)) ''a  b'' = 40 \<and>
   wrap_text (\<lambda>s. 10 * int (length s)) ''a  b'' 40 = [''a b''] \<and>
   strip ''a  b'' = ''a  b''"
  by code_simp

text \<open>
  Claim C3. For the text \<open>"A - B - C"\<close> and a width budget that each of
  \<open>"A"\<close>, \<open>"B"\<close> and \<open>"C"\<close> fits, \<open>wrap_text\<close> returns exactly the three
  lines \<open>"A"\<close>, \<open>"B"\<close>, \<open>"C"\<close>, and no returned line contains \<open>" - "\<close>.
\<close>

theorem wrap_text_manual_breaks:
  assumes "width ''A'' \<le> max_width" and "width ''B'' \<le> max_width"
    and "width ''C'' \<le> max_width"
  shows "wrap_text width ''A - B - C'' max_width = [''A'', ''B'', ''C''] \<and>
         list_all (\<lambda>l. \<not> str_contains '' - '' l) (wrap_text width ''A - B - C'' max_width)"
proof -
  have c: "str_contains '' - '' ''A - B - C''" by simp
  have p: "str_split_sep '' - '' ''A - B - C'' = [''A'', ''B'', ''C'']" by simp
  have s: "strip ''A'' = ''A''" "strip ''B'' = ''B''" "strip ''C'' = ''C''"
    by (simp_all add: strip_def isspace_def)
  have "wrap_text width ''A - B - C'' max_width = [''A'', ''B'', ''C'']"
    using assms by (simp add: wrap_text_def c p wrap_parts_step s)
  then show ?thesis by simp
qed

theorem wrap_text_manual_breaks_witness:
  "wrap_text (\<lambda>s. 10 * int (length s)) ''A - B - C'' 100 = [''A'', ''B'', ''C'']"
  using wrap_text_manual_breaks [of "\<lambda>s. 10 * int (length s)" 100] by simp

section \<open>Output file name: properties\<close>

lemma is_digit_digit_char: "0 \<le> d \<Longrightarrow> d < 10 \<Longrightarrow> is_digit (digit_char d)"
proof -
  assume "0 \<le> d" "d < 10"
  then have "nat d < length ''0123456789''" by simp
  then show ?thesis
    unfolding is_digit_def digit_char_def by (rule nth_mem)
qed

lemma is_hex_hex_char: "0 \<le> d \<Longrightarrow> d < 16 \<Longrightarrow> is_hex (hex_char d)"
proof -
  assume "0 \<le> d" "d < 16"
  then have "nat d < length ''0123456789abcdef''" by simp
  then show ?thesis
    unfolding is_hex_def hex_char_def by (rule nth_mem)
qed

lemma length_zero_padded [simp]: "length (zero_padded n v) = n"
  by (induction n arbitrary: v) simp_all

lemma length_hex_padded [simp]: "length (hex_padded n v) = n"
  by (induction n arbitrary: v) simp_all

lemma zero_padded_digits: "list_all is_digit (zero_padded n v)"
  by (induction n arbitrary: v) (simp_all add: is_digit_digit_char)

lemma hex_padded_digits: "list_all is_hex (hex_padded n v)"
  by (induction n arbitrary: v) (simp_all add: is_hex_hex_char)

lemma zero_padded_add:
  "zero_padded (m + n) v = zero_padded m (v div 10 ^ n) @ zero_padded n v"
  by (induction n arbitrary: v) (simp_all add: zdiv_zmult2_eq mult.commute)

lemma zero_padded_shift: "zero_padded n (a * 10 ^ n + v) = zero_padded n v"
proof (induction n arbitrary: a v)
  case 0
  then show ?case by simp
next
  case (Suc n)
  have "(a * 10 ^ Suc n + v) div 10 = a * 10 ^ n + v div 10" by simp
  moreover have "(a * 10 ^ Suc n + v) mod 10 = (10 * (a * 10 ^ n) + v) mod 10"
    by (simp add: mult.left_commute)
  then have "(a * 10 ^ Suc n + v) mod 10 = v mod 10" by simp
  ultimately show ?case using Suc.IH [of a "v div 10"] by simp
qed

lemma zero_padded_pair:
  assumes "0 \<le> v" "v < 10 ^ n"
  shows "zero_padded (m + n) (a * 10 ^ n + v) = zero_padded m a @ zero_padded n v"
proof -
  have "(a * 10 ^ n + v) div 10 ^ n = a" using assms by simp
  then show ?thesis by (simp add: zero_padded_add zero_padded_shift)
qed

lemma zero_padded_triple:
  assumes "0 \<le> b" "b < 100" "0 \<le> c" "c < 100"
  shows "zero_padded (k + 2 + 2) (a * 10000 + b * 100 + c) =
         zero_padded k a @ zero_padded 2 b @ zero_padded 2 c"
proof -
  have "a * 10000 + b * 100 + c = (a * 10\<^sup>2 + b) * 10\<^sup>2 + c" by simp
  then have "zero_padded (k + 2 + 2) (a * 10000 + b * 100 + c) =
      zero_padded (k + 2 + 2) ((a * 10\<^sup>2 + b) * 10\<^sup>2 + c)" by (rule arg_cong)
  also have "\<dots> = zero_padded (k + 2) (a * 10\<^sup>2 + b) @ zero_padded 2 c"
    by (rule zero_padded_pair) (use assms in simp_all)
  also have "zero_padded (k + 2) (a * 10\<^sup>2 + b) = zero_padded k a @ zero_padded 2 b"
    by (rule zero_padded_pair) (use assms in simp_all)
  finally show ?thesis by simp
qed

lemma strftime_date_time:
  assumes "valid_datetime t"
  shows "strftime t = zero_padded 8 (year t * 10000 + month t * 100 + day t) @ ''_'' @
                      zero_padded 6 (hour t * 10000 + minute t * 100 + second t)"
proof -
  have r: "0 \<le> month t" "month t < 100" "0 \<le> day t" "day t < 100"
    "0 \<le> minute t" "minute t < 100" "0 \<le> second t" "second t < 100"
    using assms by (simp_all add: valid_datetime_def)
  have d: "zero_padded (4 + 2 + 2) (year t * 10000 + month t * 100 + day t) =
      zero_padded 4 (year t) @ zero_padded 2 (month t) @ zero_padded 2 (day t)"
    using r by (intro zero_padded_triple)
  have h: "zero_padded (2 + 2 + 2) (hour t * 10000 + minute t * 100 + second t) =
      zero_padded 2 (hour t) @ zero_padded 2 (minute t) @ zero_padded 2 (second t)"
    using r by (intro zero_padded_triple)
  have n: "(4 + 2 + 2 :: nat) = 8" "(2 + 2 + 2 :: nat) = 6" by simp_all
  show ?thesis
    using d h unfolding n by (simp only: strftime_def append_assoc)
qed

lemma take8_str_uuid: "take 8 (str_uuid u) = take 8 (hex32 u)"
  by (simp add: str_uuid_def hex32_def Let_def)

lemma matches_patternI:
  assumes "length d8 = 8" "list_all is_digit d8" "length d6 = 6" "list_all is_digit d6"
    "length h8 = 8" "list_all is_hex h8"
  shows "matches_pattern ticker (ticker @ ''_'' @ d8 @ ''_'' @ d6 @ ''_'' @ h8 @ ''.png'')"
  using assms by (simp add: matches_pattern_def)

text \<open>
  Claim C8. For every ticker, every clock reading (a \<open>datetime\<close> with the year from
  1000 on) and every UUID, the file name is the ticker, an underscore, the date as 8
  decimal digits \<open>yyyymmdd\<close>, an underscore, the time as 6 decimal digits
  \<open>HHMMSS\<close>, an underscore, the first 8 hexadecimal digits of the UUID and
  \<open>".png"\<close>; so it matches \<open>{TICKER}_{8 digits}_{6 digits}_{8 hex chars}.png\<close>.
\<close>

theorem filename_pattern:
  assumes "valid_datetime now"
  shows "filename ticker now uuid4 =
           ticker @ ''_'' @ zero_padded 8 (year now * 10000 + month now * 100 + day now) @
           ''_'' @ zero_padded 6 (hour now * 10000 + minute now * 100 + second now) @
           ''_'' @ take 8 (hex32 uuid4) @ ''.png'' \<and>
         matches_pattern ticker (filename ticker now uuid4)"
proof -
  let ?d8 = "zero_padded 8 (year now * 10000 + month now * 100 + day now)"
  let ?d6 = "zero_padded 6 (hour now * 10000 + minute now * 100 + second now)"
  let ?h8 = "take 8 (hex32 uuid4)"
  have eq: "filename ticker now uuid4 = ticker @ ''_'' @ ?d8 @ ''_'' @ ?d6 @ ''_'' @ ?h8 @ ''.png''"
    by (simp add: filename_def Let_def take8_str_uuid strftime_date_time [OF assms])
  have "list_all is_hex (hex32 uuid4)"
    unfolding hex32_def by (rule hex_padded_digits)
  then have h: "list_all is_hex ?h8"
    by (auto simp: list_all_iff dest: in_set_takeD)
  have l: "length ?h8 = 8" by (simp add: hex32_def)
  have "matches_pattern ticker (ticker @ ''_'' @ ?d8 @ ''_'' @ ?d6 @ ''_'' @ ?h8 @ ''.png'')"
    by (rule matches_patternI) (simp_all only: length_zero_padded zero_padded_digits h l)
  with eq show ?thesis by simp
qed

theorem filename_pattern_witness:
  "filename ''TCS'' \<lparr>year = 2026, month = 11, day = 4, hour = 9, minute = 5, second = 59\<rparr>
     0x1b4e28ba2fa111d2883f0016d3cca427 = ''TCS_20261104_090559_1b4e28ba.png'' \<and>
   matches_pattern ''TCS'' ''TCS_20261104_090559_1b4e28ba.png''"
proof -
  have v: "valid_datetime \<lparr>year = 2026, month = 11, day = 4, hour = 9, minute = 5, second = 59\<rparr>"
    by (simp add: valid_datetime_def)
  have e: "filename ''TCS'' \<lparr>year = 2026, month = 11, day = 4, hour = 9, minute = 5, second = 59\<rparr>
     0x1b4e28ba2fa111d2883f0016d3cca427 = ''TCS_20261104_090559_1b4e28ba.png''"
    by code_simp
  have m: "matches_pattern ''TCS''
      (filename ''TCS'' \<lparr>year = 2026, month = 11, day = 4, hour = 9, minute = 5, second = 59\<rparr>
         0x1b4e28ba2fa111d2883f0016d3cca427)"
    using filename_pattern [OF v] by (rule conjunct2)
  show ?thesis
    using e m by (simp only: simp_thms)
qed

section \<open>Facts about the floating-point model\<close>

lemma rne_error: "\<bar>of_int (rne x) - x\<bar> \<le> 1 / 2"
proof -
  have "of_int \<lfloor>x\<rfloor> \<le> x" "x < of_int \<lfloor>x\<rfloor> + 1" by linarith+
  then show ?thesis
    by (auto simp: rne_def Let_def) 
qed

lemma rne_of_int [simp]: "rne (of_int n) = n"
  by (simp add: rne_def)

lemma exp_up_spec:
  "1 \<le> x \<Longrightarrow> 0 \<le> exp_up x \<and> 2 powi (exp_up x) \<le> x \<and> x < 2 powi (exp_up x + 1)"
proof (induction x rule: exp_up.induct)
  case (1 x)
  show ?case
  proof (cases "x < 2")
    case True
    then show ?thesis using "1.prems" by (simp add: exp_up.simps [of x])
  next
    case False
    then have "1 \<le> x / 2" by simp
    from "1.IH" [OF False this]
    have ih: "0 \<le> exp_up (x / 2)" "2 powi (exp_up (x / 2)) \<le> x / 2"
      "x / 2 < 2 powi (exp_up (x / 2) + 1)" by simp_all
    have e: "exp_up x = 1 + exp_up (x / 2)"
      using False by (simp add: exp_up.simps [of x])
    have p: "(2::rat) powi (1 + n) = 2 * 2 powi n" for n
      by (simp add: power_int_add)
    have "2 powi (1 + exp_up (x / 2)) \<le> x"
      using ih(2) unfolding p by simp
    moreover have "2 powi (1 + exp_up (x / 2) + 1) = 2 * (2::rat) powi (exp_up (x / 2) + 1)"
      by (simp only: add.assoc p)
    then have "x < 2 powi (1 + exp_up (x / 2) + 1)"
      using ih(3) by simp
    moreover have "0 \<le> 1 + exp_up (x / 2)" using ih(1) by simp
    ultimately show ?thesis unfolding e by blast
  qed
qed

lemma exp_down_spec:
  "0 < x \<Longrightarrow> x < 1 \<Longrightarrow> 2 powi (exp_down x) \<le> x \<and> x < 2 powi (exp_down x + 1)"
proof (induction x rule: exp_down.induct)
  case (1 x)
  have c: "\<not> (x \<le> 0 \<or> 1 \<le> x)" using "1.prems" by simp
  have e: "exp_down x = exp_down (2 * x) - 1"
    using c by (simp add: exp_down.simps [of x])
  show ?case
  proof (cases "2 * x < 1")
    case True
    from "1.IH" [OF c _ True] "1.prems"
    have ih: "2 powi (exp_down (2 * x)) \<le> 2 * x" "2 * x < 2 powi (exp_down (2 * x) + 1)"
      by simp_all
    have p: "(2::rat) powi (n - 1) = 2 powi n / 2" for n
      by (simp add: power_int_diff)
    show ?thesis using ih unfolding e by (simp add: p power_int_add)
  next
    case False
    then have "exp_down (2 * x) = 0" by (simp add: exp_down.simps [of "2 * x"])
    then show ?thesis using False "1.prems" unfolding e by (simp add: power_int_minus)
  qed
qed

lemma ilog2_spec:
  assumes "0 < x"
  shows "2 powi (ilog2 x) \<le> x \<and> x < 2 powi (ilog2 x + 1)"
  using assms exp_up_spec [of x] exp_down_spec [of x]
  by (cases "1 \<le> x") (simp_all add: ilog2_def)

lemma fl_0 [simp]: "fl 0 = 0"
  by (simp add: fl_def)

lemma fl_error: "\<bar>fl x - x\<bar> \<le> \<bar>x\<bar> / 2 ^ 53"
proof (cases "x = 0")
  case True
  then show ?thesis by simp
next
  case False
  define e where "e = ilog2 \<bar>x\<bar>"
  define u :: rat where "u = 2 powi (e - 52)"
  define s where "s = x / u"
  have u: "0 < u" by (simp add: u_def)
  have "2 powi e \<le> \<bar>x\<bar>"
    using ilog2_spec [of "\<bar>x\<bar>"] False by (simp add: e_def)
  moreover have "(2::rat) powi e = 2 ^ 52 * u"
    by (simp add: u_def power_int_diff)
  ultimately have "2 ^ 52 * u \<le> \<bar>x\<bar>" by simp
  then have s52: "2 ^ 52 \<le> \<bar>s\<bar>"
    using u by (simp add: s_def pos_le_divide_eq abs_mult)
  have "\<bar>of_int (rne s) - s\<bar> \<le> 1 / 2" by (rule rne_error)
  also have "\<dots> \<le> \<bar>s\<bar> / 2 ^ 53" using s52 by simp
  finally have r: "\<bar>of_int (rne s) - s\<bar> \<le> \<bar>s\<bar> / 2 ^ 53" .
  have f: "fl x = of_int (rne s) * u"
    using False by (simp add: fl_def Let_def e_def u_def s_def)
  have x: "x = s * u" using u by (simp add: s_def)
  have "fl x - x = of_int (rne s) * u - s * u"
    by (simp only: f x [symmetric])
  then have "fl x - x = (of_int (rne s) - s) * u"
    by (simp only: left_diff_distrib)
  then have "\<bar>fl x - x\<bar> = \<bar>of_int (rne s) - s\<bar> * u"
    using u by (simp add: abs_mult)
  also have "\<dots> \<le> \<bar>s\<bar> / 2 ^ 53 * u"
    using r u by (simp add: mult_right_mono)
  also have "\<dots> = \<bar>s * u\<bar> / 2 ^ 53"
    using u by (simp add: abs_mult)
  also have "\<dots> = \<bar>x\<bar> / 2 ^ 53"
    by (simp only: x [symmetric])
  finally show ?thesis .
qed

lemma rne_div_correct:
  assumes "0 < q"
  shows "rne (of_int p / of_int q) = rne_div p q"
proof -
  have f: "\<lfloor>rat_of_int p / rat_of_int q\<rfloor> = p div q"
    by (simp add: floor_divide_of_int_eq)
  have "p = p div q * q + p mod q" by simp
  then have "rat_of_int p = of_int (p div q) * of_int q + of_int (p mod q)"
    by (metis of_int_add of_int_mult)
  then have d0: "rat_of_int p / of_int q - of_int (p div q) = of_int (p mod q) / of_int q"
    using assms by (simp add: field_simps)
  then have d: "rat_of_int p / rat_of_int q - of_int \<lfloor>rat_of_int p / rat_of_int q\<rfloor>
      = of_int (p mod q) / of_int q"
    by (simp only: f)
  have lt: "rat_of_int (p mod q) / rat_of_int q < 1 / 2 \<longleftrightarrow> 2 * (p mod q) < q"
  proof -
    have "rat_of_int (p mod q) / rat_of_int q < 1 / 2 \<longleftrightarrow>
        rat_of_int (2 * (p mod q)) < rat_of_int q"
      using assms by (simp add: field_simps)
    then show ?thesis by (simp only: of_int_less_iff)
  qed
  have gt: "1 / 2 < rat_of_int (p mod q) / rat_of_int q \<longleftrightarrow> q < 2 * (p mod q)"
  proof -
    have "1 / 2 < rat_of_int (p mod q) / rat_of_int q \<longleftrightarrow>
        rat_of_int q < rat_of_int (2 * (p mod q))"
      using assms by (simp add: field_simps)
    then show ?thesis by (simp only: of_int_less_iff)
  qed
  show ?thesis
    by (simp only: rne_def rne_div_def Let_def f d0 lt gt)
qed

lemma exp_up_frac_correct:
  "0 < q \<Longrightarrow> exp_up (of_int p / of_int q) = exp_up_frac p q"
proof (induction p q rule: exp_up_frac.induct)
  case (1 p q)
  have c: "rat_of_int p / of_int q < 2 \<longleftrightarrow> p < 2 * q"
  proof -
    have "rat_of_int p / of_int q < 2 \<longleftrightarrow> rat_of_int p < of_int (2 * q)"
      using "1.prems" by (simp add: field_simps)
    then show ?thesis by (simp only: of_int_less_iff)
  qed
  show ?case
  proof (cases "p < 2 * q")
    case True
    then show ?thesis
      using c "1.prems"
      by (simp add: exp_up.simps [of "of_int p / of_int q"] exp_up_frac.simps [of p q])
  next
    case False
    have ih: "exp_up (rat_of_int p / of_int (2 * q)) = exp_up_frac p (2 * q)"
      using "1.IH" False "1.prems" by simp
    have h: "rat_of_int p / of_int q / 2 = rat_of_int p / of_int (2 * q)" by simp
    have e1: "exp_up (rat_of_int p / of_int q) = 1 + exp_up (rat_of_int p / of_int q / 2)"
      using c False by (subst exp_up.simps) (simp only: if_False)
    have e2: "exp_up_frac p q = 1 + exp_up_frac p (2 * q)"
      using False "1.prems" by (subst exp_up_frac.simps) simp
    show ?thesis by (simp only: e1 e2 h ih)
  qed
qed

lemma exp_down_frac_correct:
  "0 < q \<Longrightarrow> exp_down (of_int p / of_int q) = exp_down_frac p q"
proof (induction p q rule: exp_down_frac.induct)
  case (1 p q)
  have c0: "rat_of_int p / of_int q \<le> 0 \<longleftrightarrow> p \<le> 0"
    using "1.prems" by (simp add: divide_le_0_iff)
  have c1: "1 \<le> rat_of_int p / of_int q \<longleftrightarrow> q \<le> p"
    using "1.prems" by (simp add: field_simps)
  show ?case
  proof (cases "p \<le> 0 \<or> q \<le> p")
    case True
    then show ?thesis
      using c0 c1
      by (simp add: exp_down.simps [of "of_int p / of_int q"] exp_down_frac.simps [of p q])
  next
    case False
    have ih: "exp_down (rat_of_int (2 * p) / of_int q) = exp_down_frac (2 * p) q"
      using "1.IH" False "1.prems" by simp
    have h: "2 * (rat_of_int p / of_int q) = rat_of_int (2 * p) / of_int q" by simp
    have e1: "exp_down (rat_of_int p / of_int q) = exp_down (2 * (rat_of_int p / of_int q)) - 1"
      using c0 c1 False by (subst exp_down.simps) (simp only: if_False)
    have e2: "exp_down_frac p q = exp_down_frac (2 * p) q - 1"
      using False by (subst exp_down_frac.simps) simp
    show ?thesis by (simp only: e1 e2 h ih)
  qed
qed

lemma fl_frac_correct:
  assumes "0 < p" "0 < q"
  shows "fl (of_int p / of_int q) = dy (fl_frac p q)"
proof -
  define x where "x = rat_of_int p / rat_of_int q"
  define e where "e = (if q \<le> p then exp_up_frac p q else exp_down_frac p q)"
  have x: "0 < x" "x \<noteq> 0" "\<bar>x\<bar> = x" using assms by (simp_all add: x_def)
  have "1 \<le> x \<longleftrightarrow> q \<le> p" using assms by (simp add: x_def field_simps)
  then have il: "ilog2 x = e"
    using assms exp_up_frac_correct [of q p] exp_down_frac_correct [of q p]
    by (simp add: ilog2_def e_def x_def)
  have r: "rne (x / 2 powi (e - 52)) =
      (if 0 \<le> e - 52 then rne_div p (q * 2 ^ nat (e - 52)) else rne_div (p * 2 ^ nat (- (e - 52))) q)"
  proof (cases "0 \<le> e - 52")
    case True
    then have "(2::rat) powi (e - 52) = of_int (2 ^ nat (e - 52))"
      by (simp add: power_int_def)
    then have "x / 2 powi (e - 52) = of_int p / of_int (q * 2 ^ nat (e - 52))"
      by (simp add: x_def)
    then show ?thesis
      using True assms rne_div_correct [of "q * 2 ^ nat (e - 52)" p] by simp
  next
    case False
    then have "(2::rat) powi (e - 52) = 1 / of_int (2 ^ nat (- (e - 52)))"
      by (simp add: power_int_def field_simps)
    then have "x / 2 powi (e - 52) = of_int (p * 2 ^ nat (- (e - 52))) / of_int q"
      by (simp add: x_def)
    then show ?thesis
      using False assms rne_div_correct [of q "p * 2 ^ nat (- (e - 52))"] by simp
  qed
  have "fl x = of_int (rne (x / 2 powi (e - 52))) * 2 powi (e - 52)"
    using x il by (simp add: fl_def Let_def)
  also have "\<dots> = dy (fl_frac p q)"
    unfolding r by (simp add: dy_def fl_frac_def Let_def e_def)
  finally show ?thesis by (simp only: x_def)
qed

lemma fl_dy_correct:
  assumes "0 < m"
  shows "fl (dy (m, s)) = dy (fl_dy (m, s))"
proof (cases "0 \<le> s")
  case True
  then have "dy (m, s) = of_int (m * 2 ^ nat s) / of_int 1"
    by (simp add: dy_def power_int_def)
  then show ?thesis
    using True assms fl_frac_correct [of "m * 2 ^ nat s" 1] by (simp add: fl_dy_def)
next
  case False
  then have "dy (m, s) = of_int m / of_int (2 ^ nat (- s))"
    by (simp add: dy_def power_int_def field_simps)
  then show ?thesis
    using False assms fl_frac_correct [of m "2 ^ nat (- s)"] by (simp add: fl_dy_def)
qed

lemma trunc_dy_correct:
  assumes "0 \<le> m"
  shows "int_of_float (dy (m, s)) = trunc_dy (m, s)"
proof (cases "0 \<le> s")
  case True
  then have d: "dy (m, s) = of_int (m * 2 ^ nat s)"
    by (simp add: dy_def power_int_def)
  have "0 \<le> rat_of_int (m * 2 ^ nat s)"
    using assms by (simp only: of_int_0_le_iff) simp
  then have "int_of_float (dy (m, s)) = \<lfloor>rat_of_int (m * 2 ^ nat s)\<rfloor>"
    unfolding d int_of_float_def by (simp only: if_True)
  also have "\<dots> = m * 2 ^ nat s" by (rule floor_of_int)
  finally show ?thesis using True by (simp add: trunc_dy_def)
next
  case False
  then have d: "dy (m, s) = of_int m / of_int (2 ^ nat (- s))"
    by (simp add: dy_def power_int_def field_simps)
  have "0 \<le> rat_of_int m / of_int (2 ^ nat (- s))" using assms by simp
  then show ?thesis
    using False unfolding d int_of_float_def trunc_dy_def
    by (simp add: floor_divide_of_int_eq del: of_int_power)
qed

lemma fl_code [code]:
  "fl x = (case quotient_of x of (p, q) \<Rightarrow>
     if 0 < p then dy (fl_frac p q)
     else if p = 0 then 0
     else let e = ilog2 \<bar>x\<bar> in of_int (rne (x / 2 powi (e - 52))) * 2 powi (e - 52))"
proof -
  obtain p q where pq: "quotient_of x = (p, q)" by (cases "quotient_of x")
  then have x: "x = of_int p / of_int q" and q: "0 < q"
    by (simp_all add: quotient_of_div quotient_of_denom_pos)
  show ?thesis
  proof (cases "0 < p")
    case True
    have "fl x = dy (fl_frac p q)"
      using fl_frac_correct [OF True q] by (simp only: x [symmetric])
    then show ?thesis
      by (simp only: pq prod.case True if_True)
  next
    case False
    have z: "x = 0 \<longleftrightarrow> p = 0" using q by (simp add: x)
    show ?thesis
      unfolding pq prod.case fl_def z using False by (simp only: if_False)
  qed
qed


lemma fl_abs_error:
  assumes "0 \<le> x" "x \<le> 256"
  shows "0 \<le> fl x" and "x - 1 / 35184372088832 \<le> fl x" and "fl x \<le> x + 1 / 35184372088832"
proof -
  have e: "\<bar>fl x - x\<bar> \<le> \<bar>x\<bar> / 2 ^ 53" by (rule fl_error)
  have "\<bar>x\<bar> / 2 ^ 53 \<le> x" using assms by simp
  with e show "0 \<le> fl x" by linarith
  have "\<bar>x\<bar> / 2 ^ 53 \<le> 256 / 2 ^ 53" using assms by simp
  also have "\<dots> = 1 / 35184372088832" by simp
  finally have "\<bar>fl x - x\<bar> \<le> 1 / 35184372088832" using e by linarith
  then show "x - 1 / 35184372088832 \<le> fl x" and "fl x \<le> x + 1 / 35184372088832" by linarith+
qed


section \<open>Colour analysis: properties\<close>

lemma literal_299: "literal (299 / 1000) = 5386305154335113 / 18014398509481984"
proof -
  have "fl_frac 299 1000 = (5386305154335113, - 54)" by code_simp
  then show ?thesis
    using fl_frac_correct [of 299 1000] by (simp add: literal_def dy_def)
qed

lemma literal_587: "literal (587 / 1000) = 2643612981266481 / 4503599627370496"
proof -
  have "fl_frac 587 1000 = (2643612981266481 * 2, - 53)" by code_simp
  then show ?thesis
    using fl_frac_correct [of 587 1000] by (simp add: literal_def dy_def)
qed

lemma literal_114: "literal (114 / 1000) = 8214565720323785 / 72057594037927936"
proof -
  have "fl_frac 114 1000 = (8214565720323785, - 56)" by code_simp
  then show ?thesis
    using fl_frac_correct [of 114 1000] by (simp add: literal_def dy_def)
qed

lemma literal_127_5: "literal (1275 / 10) = 255 / 2"
proof -
  have "fl_frac 255 2 = (255 * 2 ^ 45, - 46)" by code_simp
  moreover have "(1275 / 10 :: rat) = of_int 255 / of_int 2" by simp
  ultimately show ?thesis
    using fl_frac_correct [of 255 2] by (simp add: literal_def dy_def)
qed


lemma brightness_error:
  assumes "0 \<le> r" "r \<le> 255" "0 \<le> g" "g \<le> 255" "0 \<le> b" "b \<le> 255"
  shows "\<bar>brightness (r, g, b) - rat_of_int (299 * r + 587 * g + 114 * b) / 1000\<bar>
           \<le> 1 / 2 ^ 40"
proof -
  define R G B where "R = rat_of_int r" and "G = rat_of_int g" and "B = rat_of_int b"
  have rng: "0 \<le> R" "R \<le> 255" "0 \<le> G" "G \<le> 255" "0 \<le> B" "B \<le> 255"
    using assms by (simp_all add: R_def G_def B_def)
  define r' g' b' where "r' = fl R" and "g' = fl G" and "b' = fl B"
  have r': "0 \<le> r'" "R - 1 / 35184372088832 \<le> r'" "r' \<le> R + 1 / 35184372088832"
    unfolding r'_def using rng by (intro fl_abs_error; simp)+
  have g': "0 \<le> g'" "G - 1 / 35184372088832 \<le> g'" "g' \<le> G + 1 / 35184372088832"
    unfolding g'_def using rng by (intro fl_abs_error; simp)+
  have b': "0 \<le> b'" "B - 1 / 35184372088832 \<le> b'" "b' \<le> B + 1 / 35184372088832"
    unfolding b'_def using rng by (intro fl_abs_error; simp)+
  define p1 p2 p3 where "p1 = 5386305154335113 / 18014398509481984 * r'"
    and "p2 = 2643612981266481 / 4503599627370496 * g'"
    and "p3 = 8214565720323785 / 72057594037927936 * b'"
  define t1 t2 t3 where "t1 = fl p1" and "t2 = fl p2" and "t3 = fl p3"
  have p1: "0 \<le> p1" "p1 \<le> 256" "p1 \<le> 299 / 1000 * R + 1 / 35184372088832"
    "299 / 1000 * R - 1 / 35184372088832 \<le> p1" "p1 \<le> 763 / 10"
    using r' rng unfolding p1_def by linarith+
  have p2: "0 \<le> p2" "p2 \<le> 256" "p2 \<le> 587 / 1000 * G + 1 / 35184372088832"
    "587 / 1000 * G - 1 / 35184372088832 \<le> p2" "p2 \<le> 1497 / 10"
    using g' rng unfolding p2_def by linarith+
  have p3: "0 \<le> p3" "p3 \<le> 256" "p3 \<le> 114 / 1000 * B + 1 / 35184372088832"
    "114 / 1000 * B - 1 / 35184372088832 \<le> p3" "p3 \<le> 291 / 10"
    using b' rng unfolding p3_def by linarith+
  have t1: "0 \<le> t1" "p1 - 1 / 35184372088832 \<le> t1" "t1 \<le> p1 + 1 / 35184372088832"
    unfolding t1_def using p1 by (intro fl_abs_error; simp)+
  have t2: "0 \<le> t2" "p2 - 1 / 35184372088832 \<le> t2" "t2 \<le> p2 + 1 / 35184372088832"
    unfolding t2_def using p2 by (intro fl_abs_error; simp)+
  have t3: "0 \<le> t3" "p3 - 1 / 35184372088832 \<le> t3" "t3 \<le> p3 + 1 / 35184372088832"
    unfolding t3_def using p3 by (intro fl_abs_error; simp)+
  define s1 where "s1 = fl (t1 + t2)"
  have a1: "0 \<le> t1 + t2" "t1 + t2 \<le> 256"
    using t1 t2 p1 p2 by linarith+
  have s1: "0 \<le> s1" "t1 + t2 - 1 / 35184372088832 \<le> s1" "s1 \<le> t1 + t2 + 1 / 35184372088832"
    unfolding s1_def by (rule fl_abs_error [OF a1])+
  define s2 where "s2 = fl (s1 + t3)"
  have a2: "0 \<le> s1 + t3" "s1 + t3 \<le> 256"
    using s1 t1 t2 t3 p1 p2 p3 by linarith+
  have s2: "0 \<le> s2" "s1 + t3 - 1 / 35184372088832 \<le> s2" "s2 \<le> s1 + t3 + 1 / 35184372088832"
    unfolding s2_def by (rule fl_abs_error [OF a2])+
  have br: "brightness (r, g, b) = s2"
    by (simp only: brightness_def prod.case fadd_def fmul_def float_of_int_def literal_299
        literal_587 literal_114 s2_def s1_def t1_def t2_def t3_def p1_def p2_def p3_def
        r'_def g'_def b'_def R_def G_def B_def)
  have L: "rat_of_int (299 * r + 587 * g + 114 * b) / 1000 =
      299 / 1000 * R + 587 / 1000 * G + 114 / 1000 * B"
    by (simp add: R_def G_def B_def)
  have "\<bar>s2 - (299 / 1000 * R + 587 / 1000 * G + 114 / 1000 * B)\<bar> \<le> 1 / 1099511627776"
    using s2 s1 t1 t2 t3 p1 p2 p3 by linarith
  then show ?thesis
    unfolding br L by simp
qed

text \<open>
  Claim C7 (as amended). For every colour with channels in 0 to 255,
  \<open>is_color_dark\<close> is true exactly when the luminance it computes in floating-point
  arithmetic is below 127.5. The computed luminance differs from
  \<open>0.299 R + 0.587 G + 0.114 B\<close> by at most \<open>1 / 2 ^ 40\<close>, so the colour is dark when
  the exact luminance is below 127.5 and not dark when it is above 127.5. In particular
  \<open>(0, 0, 0)\<close> is dark and \<open>(255, 255, 255)\<close> is not.
\<close>

theorem is_color_dark_threshold:
  assumes "0 \<le> r" "r \<le> 255" "0 \<le> g" "g \<le> 255" "0 \<le> b" "b \<le> 255"
  shows "(is_color_dark (r, g, b) \<longleftrightarrow> brightness (r, g, b) < 255 / 2) \<and>
         \<bar>brightness (r, g, b) - rat_of_int (299 * r + 587 * g + 114 * b) / 1000\<bar>
           \<le> 1 / 2 ^ 40 \<and>
         (299 * r + 587 * g + 114 * b < 127500 \<longrightarrow> is_color_dark (r, g, b)) \<and>
         (127500 < 299 * r + 587 * g + 114 * b \<longrightarrow> \<not> is_color_dark (r, g, b))"
proof -
  define L where "L = 299 * r + 587 * g + 114 * b"
  have d: "is_color_dark (r, g, b) \<longleftrightarrow> brightness (r, g, b) < 255 / 2"
    by (simp only: is_color_dark_def literal_127_5)
  have e: "\<bar>brightness (r, g, b) - rat_of_int L / 1000\<bar> \<le> 1 / 2 ^ 40"
    unfolding L_def using assms by (rule brightness_error)
  then have e': "\<bar>brightness (r, g, b) - rat_of_int L / 1000\<bar> \<le> 1 / 1099511627776"
    by simp
  have lo: "is_color_dark (r, g, b)" if "L < 127500"
  proof -
    from that have "L \<le> 127499" by simp
    then have "rat_of_int L \<le> 127499" by simp
    with e' have "brightness (r, g, b) < 255 / 2" by linarith
    with d show ?thesis by simp
  qed
  have hi: "\<not> is_color_dark (r, g, b)" if "127500 < L"
  proof -
    from that have "127501 \<le> L" by simp
    then have "127501 \<le> rat_of_int L" by simp
    with e' have "\<not> brightness (r, g, b) < 255 / 2" by linarith
    with d show ?thesis by simp
  qed
  show ?thesis using d e lo hi unfolding L_def by blast
qed

text \<open>Black and white, from the theorem.\<close>

theorem is_color_dark_threshold_witness:
  "is_color_dark (0, 0, 0) \<and> \<not> is_color_dark (255, 255, 255)"
proof -
  have h: "(0::int) \<le> 0" "(0::int) \<le> 255" "(255::int) \<le> 255"
    "299 * 0 + 587 * 0 + 114 * 0 < (127500::int)"
    "(127500::int) < 299 * 255 + 587 * 255 + 114 * 255"
    by simp_all
  from is_color_dark_threshold [OF h(1) h(2) h(1) h(2) h(1) h(2)] h(4)
  have a: "is_color_dark (0, 0, 0)" by blast
  from is_color_dark_threshold [OF h(2) h(3) h(2) h(3) h(2) h(3)] h(5)
  have b: "\<not> is_color_dark (255, 255, 255)" by blast
  from a b show ?thesis by blast
qed

text \<open>
  C7 as first stated says that a colour whose luminance is exactly 127.5 is not dark.
  The colour \<open>(0, 204, 68)\<close> has the exact luminance 127.5; the floating-point sum
  comes out just below it and the colour is classified as dark.
\<close>

theorem is_color_dark_boundary_counterexample:
  "rat_of_int (299 * 0 + 587 * 204 + 114 * 68) / 1000 = 1275 / 10 \<and> is_color_dark (0, 204, 68)"
  by code_simp


section \<open>Gradient background: properties\<close>

lemma gradient_check_sound:
  assumes "0 < k" "gradient_check k"
  shows "channel 0 255 (int_truediv k 255) = k"
proof -
  obtain m1 s1 where 1: "fl_frac k 255 = (m1, s1)" by (cases "fl_frac k 255")
  obtain m2 s2 where 2: "fl_dy (255 * m1, s1) = (m2, s2)" by (cases "fl_dy (255 * m1, s1)")
  obtain m3 s3 where 3: "fl_dy (m2, s2) = (m3, s3)" by (cases "fl_dy (m2, s2)")
  from assms(2) have pos: "0 < m1" "0 < m2" "0 < m3" and res: "trunc_dy (m3, s3) = k"
    by (simp_all add: gradient_check_def 1 2 3)
  have "fl_frac 255 1 = (255 * 2 ^ 45, - 45)" by code_simp
  then have c: "float_of_int 255 = 255"
    using fl_frac_correct [of 255 1] by (simp add: float_of_int_def dy_def)
  have r: "int_truediv k 255 = dy (m1, s1)"
    using fl_frac_correct [of k 255] assms(1) by (simp add: int_truediv_def 1)
  have "255 * dy (m1, s1) = dy (255 * m1, s1)" by (simp add: dy_def)
  then have p: "fmul 255 (dy (m1, s1)) = dy (m2, s2)"
    using fl_dy_correct [of "255 * m1" s1] pos by (simp add: fmul_def 2)
  have q: "fadd 0 (dy (m2, s2)) = dy (m3, s3)"
    using fl_dy_correct [of m2 s2] pos by (simp add: fadd_def 3)
  have "channel 0 255 (int_truediv k 255) = int_of_float (dy (m3, s3))"
    by (simp add: channel_def float_of_int_def [of 0] c r p q)
  also have "\<dots> = k"
    using trunc_dy_correct [of m3 s3] pos res by simp
  finally show ?thesis .
qed

text \<open>The check succeeds for every \<open>k\<close> from 1 to 254.\<close>

lemma gradient_table: "list_all gradient_check [1..254]" by code_simp

lemma float_of_int_255: "float_of_int 255 = 255"
proof -
  have "fl_frac 255 1 = (255 * 2 ^ 45, - 45)" by code_simp
  then show ?thesis
    using fl_frac_correct [of 255 1] by (simp add: float_of_int_def dy_def)
qed

lemma gradient_value_error:
  assumes "0 \<le> x" "x < 1"
  shows "0 \<le> fadd (float_of_int 0) (fmul (float_of_int 255) (fl x))"
    and "\<bar>fadd (float_of_int 0) (fmul (float_of_int 255) (fl x)) - 255 * x\<bar>
           \<le> 1 / 8796093022208"
proof -
  define r where "r = fl x"
  have "\<bar>r - x\<bar> \<le> \<bar>x\<bar> / 2 ^ 53" unfolding r_def by (rule fl_error)
  also have "\<dots> \<le> 1 / 2 ^ 53" using assms by simp
  finally have r1: "\<bar>r - x\<bar> \<le> 1 / 9007199254740992" by simp
  have r0: "0 \<le> r" unfolding r_def using assms by (intro fl_abs_error(1)) simp_all
  define m where "m = 255 * r"
  have m: "0 \<le> m" "m \<le> 256" using r0 r1 assms unfolding m_def by linarith+
  define p where "p = fl m"
  note p = fl_abs_error [OF m, folded p_def]
  have p256: "p \<le> 256" using p m r1 assms unfolding m_def by linarith
  define q where "q = fl p"
  note q = fl_abs_error [OF p(1) p256, folded q_def]
  have e: "fadd (float_of_int 0) (fmul (float_of_int 255) (fl x)) = q"
    by (simp add: fadd_def fmul_def float_of_int_def [of 0] float_of_int_255 q_def p_def
        m_def r_def)
  show "0 \<le> fadd (float_of_int 0) (fmul (float_of_int 255) (fl x))"
    unfolding e by (rule q(1))
  show "\<bar>fadd (float_of_int 0) (fmul (float_of_int 255) (fl x)) - 255 * x\<bar>
           \<le> 1 / 8796093022208"
    unfolding e using q p r1 unfolding m_def by linarith
qed


lemma gradient_table_lookup:
  assumes "1 \<le> k" "k \<le> 254"
  shows "gradient_check k"
proof -
  have "k \<in> set [1..254]" using assms by simp
  with gradient_table show ?thesis by (simp only: list_all_iff)
qed

lemma channel_gradient_exact:
  assumes "0 < h" "h \<le> 2 ^ 31" "0 \<le> y" "y < h"
  shows "channel 0 255 (int_truediv y h) = 255 * y div h"
proof -
  define k where "k = 255 * y div h"
  define f where "f = 255 * y mod h"
  have kf: "255 * y = k * h + f" by (simp add: k_def f_def)
  have f: "0 \<le> f" "f < h" using assms by (simp_all add: f_def)
  have k0: "0 \<le> k" using assms by (simp add: k_def pos_imp_zdiv_nonneg_iff)
  define H where "H = rat_of_int h"
  have H: "0 < H" "H \<le> 2147483648" using assms by (simp_all add: H_def)
  show ?thesis
  proof (cases "f = 0")
    case True
    then have e: "255 * y = k * h" using kf by simp
    have "rat_of_int (255 * y) = rat_of_int (k * h)" by (simp only: e)
    then have "255 * rat_of_int y = rat_of_int k * H" by (simp add: H_def)
    then have q: "rat_of_int y / rat_of_int h = rat_of_int k / rat_of_int 255"
      using H by (simp add: H_def field_simps)
    have t: "int_truediv y h = int_truediv k 255"
      by (simp only: int_truediv_def q)
    show ?thesis
    proof (cases "k = 0")
      case True
      then show ?thesis
        unfolding t k_def [symmetric]
        by (simp add: channel_def int_truediv_def fadd_def fmul_def float_of_int_def
            int_of_float_def)
    next
      case False
      have "k < 255"
      proof (rule ccontr)
        assume "\<not> k < 255"
        then have "255 * h \<le> k * h"
          using assms by (intro mult_right_mono) simp_all
        with e assms show False by linarith
      qed
      then have "gradient_check k"
        using False k0 by (intro gradient_table_lookup) simp_all
      then show ?thesis
        unfolding t k_def [symmetric] using False k0 by (intro gradient_check_sound) simp_all
    qed
  next
    case False
    then have f1: "1 \<le> f" "f \<le> h - 1" using f by simp_all
    define x where "x = rat_of_int y / H"
    have x: "0 \<le> x" "x < 1" using assms H by (simp_all add: x_def H_def)
    define q where "q = fadd (float_of_int 0) (fmul (float_of_int 255) (fl x))"
    note q = gradient_value_error [OF x, folded q_def]
    have "rat_of_int (255 * y) = rat_of_int (k * h + f)" by (simp only: kf)
    then have "255 * rat_of_int y = rat_of_int k * H + rat_of_int f" by (simp add: H_def)
    then have v: "255 * x = rat_of_int k + rat_of_int f / H"
      using H by (simp add: x_def field_simps)
    have "1 / H \<le> rat_of_int f / H"
      using f1 H by (simp add: divide_right_mono)
    moreover have "1 / 2147483648 \<le> 1 / H"
      using H by (simp add: field_simps)
    ultimately have lo: "1 / 2147483648 \<le> rat_of_int f / H" by linarith
    have "rat_of_int f \<le> H - 1" using f1 by (simp add: H_def)
    then have "rat_of_int f / H \<le> (H - 1) / H"
      using H by (simp add: divide_right_mono)
    also have "\<dots> = 1 - 1 / H" using H by (simp add: field_simps)
    finally have hi: "rat_of_int f / H \<le> 1 - 1 / 2147483648"
      using \<open>1 / 2147483648 \<le> 1 / H\<close> by linarith
    have "rat_of_int k \<le> q" "q < rat_of_int k + 1"
      using q(2) v lo hi by linarith+
    then have "\<lfloor>q\<rfloor> = k" by (simp add: floor_unique)
    then have "int_of_float q = k" using q(1) by (simp add: int_of_float_def)
    then show ?thesis
      by (simp add: channel_def int_truediv_def q_def x_def H_def k_def)
  qed
qed


lemma scanline_color_exact:
  assumes "0 < h" "h \<le> 2 ^ 31" "0 \<le> y" "y < h"
  shows "scanline_color (0, 0, 0) (255, 255, 255) h y =
         (255 * y div h, 255 * y div h, 255 * y div h)"
  using channel_gradient_exact [OF assms] by (simp add: scanline_color_def)

text \<open>
  Claim C4 (as amended). For the linear gradient from \<open>(0, 0, 0)\<close> to
  \<open>(255, 255, 255)\<close> on a canvas of height \<open>H\<close> (at most \<open>2 ^ 31\<close>), scanline \<open>y\<close>
  has the single colour whose three channels are \<open>255 * y / H\<close> rounded toward zero:
  the floating-point evaluation gives exactly this integer. Scanline 0 is black;
  scanline \<open>H - 1\<close> is \<open>(254, 254, 254)\<close> when \<open>H\<close> is at least 255; every channel is
  non-decreasing in \<open>y\<close>.
\<close>

theorem linear_gradient_black_to_white:
  assumes "0 < height" "height \<le> 2 ^ 31"
  shows "linear_gradient (0, 0, 0) (255, 255, 255) height =
           map (\<lambda>y. (255 * y div height, 255 * y div height, 255 * y div height))
             [0..height - 1] \<and>
         scanline_color (0, 0, 0) (255, 255, 255) height 0 = (0, 0, 0) \<and>
         (255 \<le> height \<longrightarrow>
            scanline_color (0, 0, 0) (255, 255, 255) height (height - 1) = (254, 254, 254)) \<and>
         (\<forall>y y'. 0 \<le> y \<and> y \<le> y' \<and> y' < height \<longrightarrow>
            (case (scanline_color (0, 0, 0) (255, 255, 255) height y,
                   scanline_color (0, 0, 0) (255, 255, 255) height y') of
               ((r, g, b), (r', g', b')) \<Rightarrow> r \<le> r' \<and> g \<le> g' \<and> b \<le> b'))"
proof (intro conjI impI allI)
  show "linear_gradient (0, 0, 0) (255, 255, 255) height =
      map (\<lambda>y. (255 * y div height, 255 * y div height, 255 * y div height)) [0..height - 1]"
    unfolding linear_gradient_def
    by (rule map_cong [OF refl]) (use assms in \<open>simp add: scanline_color_exact\<close>)
next
  show "scanline_color (0, 0, 0) (255, 255, 255) height 0 = (0, 0, 0)"
    using scanline_color_exact [OF assms, of 0] assms by simp
next
  assume h: "255 \<le> height"
  have eq: "255 * (height - 1) = height * 254 + (height - 255)" by simp
  have "255 * (height - 1) div height = 254"
    by (rule int_div_pos_eq [OF eq]) (use h in simp_all)
  then show "scanline_color (0, 0, 0) (255, 255, 255) height (height - 1) = (254, 254, 254)"
    using scanline_color_exact [OF assms, of "height - 1"] assms by simp
next
  fix y y'
  assume a: "0 \<le> y \<and> y \<le> y' \<and> y' < height"
  then have "255 * y div height \<le> 255 * y' div height"
    using assms by (intro zdiv_mono1) simp_all
  then show "case (scanline_color (0, 0, 0) (255, 255, 255) height y,
                   scanline_color (0, 0, 0) (255, 255, 255) height y') of
               ((r, g, b), (r', g', b')) \<Rightarrow> r \<le> r' \<and> g \<le> g' \<and> b \<le> b'"
    using scanline_color_exact [OF assms, of y] scanline_color_exact [OF assms, of y'] a
    by simp
qed

text \<open>A canvas of height 4, and the first and last scanlines at the height 675.\<close>

theorem linear_gradient_black_to_white_witness:
  "linear_gradient (0, 0, 0) (255, 255, 255) 4 =
     [(0, 0, 0), (63, 63, 63), (127, 127, 127), (191, 191, 191)] \<and>
   scanline_color (0, 0, 0) (255, 255, 255) 675 0 = (0, 0, 0) \<and>
   scanline_color (0, 0, 0) (255, 255, 255) 675 674 = (254, 254, 254)"
proof -
  have h: "(0::int) < 4" "(4::int) \<le> 2 ^ 31" "(0::int) < 675" "(675::int) \<le> 2 ^ 31"
    "(255::int) \<le> 675"
    by simp_all
  have u: "[0..3] = [0, 1, 2, 3 :: int]" by code_simp
  have a: "linear_gradient (0, 0, 0) (255, 255, 255) 4 =
      [(0, 0, 0), (63, 63, 63), (127, 127, 127), (191, 191, 191)]"
    using linear_gradient_black_to_white [OF h(1) h(2)] by (simp add: u)
  have b: "scanline_color (0, 0, 0) (255, 255, 255) 675 0 = (0, 0, 0)"
    using linear_gradient_black_to_white [OF h(3) h(4)] by blast
  have c: "scanline_color (0, 0, 0) (255, 255, 255) 675 674 = (254, 254, 254)"
    using linear_gradient_black_to_white [OF h(3) h(4)] h(5) by simp
  from a b c show ?thesis by blast
qed

text \<open>
  C4 as first stated calls scanline \<open>H - 1\<close> near-white for every height. On a canvas
  of height 1 the only scanline is black, and on a canvas of height 2 the last
  scanline is the middle grey.
\<close>

theorem linear_gradient_last_scanline_counterexample:
  "linear_gradient (0, 0, 0) (255, 255, 255) 1 = [(0, 0, 0)] \<and>
   linear_gradient (0, 0, 0) (255, 255, 255) 2 = [(0, 0, 0), (127, 127, 127)]"
  by code_simp

section \<open>Design decisions: properties\<close>

lemma dict_has_GRADIENTS:
  "dict_has GRADIENTS p \<longleftrightarrow> p = ''modern'' \<or> p = ''corporate'' \<or> p = ''vibrant''"
  by (simp add: dict_has_def GRADIENTS_def)

lemma choice_nonempty:
  "seq \<noteq> [] \<Longrightarrow> \<exists>x. choice seq pick = Inr x \<and> x \<in> set seq"
  by (simp add: choice_def)

lemma gradient_pairs:
  assumes "p = ''modern'' \<or> p = ''corporate'' \<or> p = ''vibrant''"
  shows "\<exists>by_tone pairs. dict_get GRADIENTS p = Inr by_tone \<and>
           dict_get by_tone (if dark then ''dark'' else ''light'') = Inr pairs \<and> pairs \<noteq> []"
  using assms by (auto simp: dict_get_def GRADIENTS_def)

lemma typography_known:
  assumes "p = ''modern'' \<or> p = ''corporate'' \<or> p = ''vibrant''"
  shows "\<exists>t. dict_get TYPOGRAPHY p = Inr t"
  using assms by (auto simp: dict_get_def TYPOGRAPHY_def)

lemma layout_known:
  assumes "p = ''modern'' \<or> p = ''corporate'' \<or> p = ''vibrant''"
  shows "\<exists>l. dict_get LAYOUTS p = Inr l"
  using assms by (auto simp: dict_get_def LAYOUTS_def)

lemma design_known:
  assumes k: "p = ''modern'' \<or> p = ''corporate'' \<or> p = ''vibrant''"
  shows "\<exists>d by_tone pairs.
           thumbnail_design p logo_exists dominant_color coin pick = Inr d \<and>
           preset d = p \<and>
           use_dark_bg d = (if logo_exists then \<not> is_color_dark dominant_color else coin) \<and>
           gradient_type d = (if use_dark_bg d then ''dark'' else ''light'') \<and>
           text_color d = (if use_dark_bg d then ''#FFFFFF'' else ''#1F2937'') \<and>
           subtitle_color d = (if use_dark_bg d then ''#D1D5DB'' else ''#6B7280'') \<and>
           dict_get TYPOGRAPHY p = Inr (typo d) \<and>
           dict_get LAYOUTS p = Inr (lay d) \<and>
           dict_get GRADIENTS p = Inr by_tone \<and>
           dict_get by_tone (gradient_type d) = Inr pairs \<and>
           (bg_start d, bg_end d) \<in> set pairs"
proof -
  define dark where "dark = (if logo_exists then \<not> is_color_dark dominant_color else coin)"
  obtain t where t: "dict_get TYPOGRAPHY p = Inr t" using typography_known [OF k] by blast
  obtain l where l: "dict_get LAYOUTS p = Inr l" using layout_known [OF k] by blast
  obtain by_tone pairs where g: "dict_get GRADIENTS p = Inr by_tone"
    "dict_get by_tone (if dark then ''dark'' else ''light'') = Inr pairs" "pairs \<noteq> []"
    using gradient_pairs [OF k, of dark] by blast
  obtain c where c: "choice pairs pick = Inr c" "c \<in> set pairs"
    using choice_nonempty [OF g(3)] by blast
  obtain s e where se: "c = (s, e)" by (cases c)
  have h: "dict_has GRADIENTS p" using k by (simp only: dict_has_GRADIENTS)
  have "thumbnail_design p logo_exists dominant_color coin pick =
      Inr \<lparr>preset = p, typo = t, lay = l, use_dark_bg = dark,
           gradient_type = (if dark then ''dark'' else ''light''),
           bg_start = s, bg_end = e,
           text_color = (if dark then ''#FFFFFF'' else ''#1F2937''),
           subtitle_color = (if dark then ''#D1D5DB'' else ''#6B7280''),
           gradient_style = (if p = ''vibrant'' then ''radial'' else ''linear'')\<rparr>"
    unfolding thumbnail_design_def Let_def dark_def [symmetric]
    by (simp only: h not_True_eq_False if_False t l g c se sum.case prod.case)
  then show ?thesis
    using t l g c se by (auto simp: dark_def)
qed


lemma normalized_known:
  "(if \<not> dict_has GRADIENTS p then ''modern'' else p) = ''modern'' \<or>
   (if \<not> dict_has GRADIENTS p then ''modern'' else p) = ''corporate'' \<or>
   (if \<not> dict_has GRADIENTS p then ''modern'' else p) = ''vibrant''"
  by (cases "dict_has GRADIENTS p") (simp_all add: dict_has_GRADIENTS)

lemma thumbnail_design_normalize:
  "thumbnail_design p logo_exists dominant_color coin pick =
   thumbnail_design (if \<not> dict_has GRADIENTS p then ''modern'' else p)
     logo_exists dominant_color coin pick"
proof (cases "dict_has GRADIENTS p")
  case True
  then show ?thesis by simp
next
  case False
  have m: "dict_has GRADIENTS ''modern''" by (simp add: dict_has_GRADIENTS)
  show ?thesis
    unfolding thumbnail_design_def Let_def
    by (simp only: False m not_True_eq_False not_False_eq_True if_True if_False)
qed

text \<open>
  Claim C6. For every style preset string the typography, layout and gradient lookups
  of \<open>generate_thumbnail\<close> succeed (the design is produced, no \<open>KeyError\<close> and no
  \<open>IndexError\<close>), and a preset that is not a key of \<open>GRADIENTS\<close> gives exactly the
  design of the preset \<open>"modern"\<close>.
\<close>

theorem preset_fallback:
  "(\<exists>d. thumbnail_design style_preset logo_exists dominant_color coin pick = Inr d) \<and>
   (\<not> dict_has GRADIENTS style_preset \<longrightarrow>
      thumbnail_design style_preset logo_exists dominant_color coin pick =
      thumbnail_design ''modern'' logo_exists dominant_color coin pick)"
proof
  show "\<exists>d. thumbnail_design style_preset logo_exists dominant_color coin pick = Inr d"
    using design_known [OF normalized_known [of style_preset],
        of logo_exists dominant_color coin pick]
    by (subst thumbnail_design_normalize) blast
next
  show "\<not> dict_has GRADIENTS style_preset \<longrightarrow>
      thumbnail_design style_preset logo_exists dominant_color coin pick =
      thumbnail_design ''modern'' logo_exists dominant_color coin pick"
    using thumbnail_design_normalize [of style_preset logo_exists dominant_color coin pick]
    by simp
qed

text \<open>The unknown preset \<open>"retro"\<close>.\<close>

theorem preset_fallback_witness:
  "\<not> dict_has GRADIENTS ''retro'' \<and>
   thumbnail_design ''retro'' False (0, 0, 0) True 1 =
     thumbnail_design ''modern'' False (0, 0, 0) True 1 \<and>
   thumbnail_design ''retro'' False (0, 0, 0) True 1 =
     Inr \<lparr>preset = ''modern'',
          typo = \<lparr>title_size = 72, subtitle_size = 40, spacing = 15\<rparr>,
          lay = \<lparr>logo_area_ratio = literal (35 / 100), padding = 50,
                 logo_max_ratio = literal (7 / 10)\<rparr>,
          use_dark_bg = True, gradient_type = ''dark'',
          bg_start = (31, 41, 55), bg_end = (51, 65, 85),
          text_color = ''#FFFFFF'', subtitle_color = ''#D1D5DB'',
          gradient_style = ''linear''\<rparr>"
proof -
  have n: "\<not> dict_has GRADIENTS ''retro''" by (simp add: dict_has_GRADIENTS)
  have e: "thumbnail_design ''retro'' False (0, 0, 0) True 1 =
      thumbnail_design ''modern'' False (0, 0, 0) True 1"
    using preset_fallback [of "''retro''" False "(0, 0, 0)" True 1] n by blast
  have m: "dict_has GRADIENTS ''modern''" by (simp add: dict_has_GRADIENTS)
  have v: "thumbnail_design ''modern'' False (0, 0, 0) True 1 =
     Inr \<lparr>preset = ''modern'',
          typo = \<lparr>title_size = 72, subtitle_size = 40, spacing = 15\<rparr>,
          lay = \<lparr>logo_area_ratio = literal (35 / 100), padding = 50,
                 logo_max_ratio = literal (7 / 10)\<rparr>,
          use_dark_bg = True, gradient_type = ''dark'',
          bg_start = (31, 41, 55), bg_end = (51, 65, 85),
          text_color = ''#FFFFFF'', subtitle_color = ''#D1D5DB'',
          gradient_style = ''linear''\<rparr>"
    by (simp add: thumbnail_design_def m dict_get_def TYPOGRAPHY_def LAYOUTS_def GRADIENTS_def
        choice_def)
  from n e v show ?thesis by simp
qed

text \<open>
  Claim C5. When a logo exists, \<open>use_dark_bg\<close> is the negation of
  \<open>is_color_dark\<close> of the logo's dominant colour: a light logo gets the dark gradients
  and the light text colours, a dark logo the light gradients and the dark text
  colours, and the gradient pair is taken from the preset's list for that tone.
\<close>

theorem background_tone_opposite_of_logo:
  "\<exists>d by_tone pairs.
     thumbnail_design style_preset True dominant_color coin pick = Inr d \<and>
     use_dark_bg d = (\<not> is_color_dark dominant_color) \<and>
     gradient_type d = (if is_color_dark dominant_color then ''light'' else ''dark'') \<and>
     text_color d = (if is_color_dark dominant_color then ''#1F2937'' else ''#FFFFFF'') \<and>
     subtitle_color d = (if is_color_dark dominant_color then ''#6B7280'' else ''#D1D5DB'') \<and>
     dict_get GRADIENTS (preset d) = Inr by_tone \<and>
     dict_get by_tone (gradient_type d) = Inr pairs \<and>
     (bg_start d, bg_end d) \<in> set pairs"
proof -
  let ?p = "if \<not> dict_has GRADIENTS style_preset then ''modern'' else style_preset"
  obtain d by_tone pairs where d:
    "thumbnail_design ?p True dominant_color coin pick = Inr d" "preset d = ?p"
    "use_dark_bg d = (if True then \<not> is_color_dark dominant_color else coin)"
    "gradient_type d = (if use_dark_bg d then ''dark'' else ''light'')"
    "text_color d = (if use_dark_bg d then ''#FFFFFF'' else ''#1F2937'')"
    "subtitle_color d = (if use_dark_bg d then ''#D1D5DB'' else ''#6B7280'')"
    "dict_get GRADIENTS ?p = Inr by_tone"
    "dict_get by_tone (gradient_type d) = Inr pairs"
    "(bg_start d, bg_end d) \<in> set pairs"
    using design_known [OF normalized_known [of style_preset], of True dominant_color coin pick]
    by blast
  have "thumbnail_design style_preset True dominant_color coin pick = Inr d"
    using d(1) by (subst thumbnail_design_normalize)
  moreover have "use_dark_bg d = (\<not> is_color_dark dominant_color)" using d(3) by simp
  ultimately show ?thesis
    using d(2,4-9) by (intro exI [of _ d] exI [of _ by_tone] exI [of _ pairs]) simp
qed

lemma white_is_light: "\<not> is_color_dark (255, 255, 255)"
  by code_simp

text \<open>A white logo on the corporate preset.\<close>

theorem background_tone_opposite_of_logo_witness:
  "\<exists>d. thumbnail_design ''corporate'' True (255, 255, 255) False 2 = Inr d \<and>
       use_dark_bg d \<and> gradient_type d = ''dark'' \<and> text_color d = ''#FFFFFF''"
  using background_tone_opposite_of_logo [of "''corporate''" "(255, 255, 255)" False 2]
    white_is_light
  by auto

end
